theory Spec2Isabelle
  imports Main "HOL-Library.Word"
begin

unbundle bit_operations_syntax

section \<open>Machine types\<close>

type_synonym byte = "8 word"
type_synonym uint16 = "16 word"
type_synonym int64 = "64 word"

section \<open>Status endpoint (pkg/api/goprobe/server/status.go)\<close>

definition StatusOK :: int where
  "StatusOK = 200"

definition StatusNoContent :: int where
  "StatusNoContent = 204"

text \<open>
  The response object. The statuses are a Go map from interface name to capture status;
  the status type itself is declared outside the handler and is left as a type parameter.
\<close>

record 'st StatusResponse =
  StatusCode :: int
  LastWriteout :: int
  Statuses :: "string \<rightharpoonup> 'st"

text \<open>
  The two collaborators of the handler: the writeout handler's last rotation time and the
  capture manager's \<open>Status(ifaces...)\<close> method, which takes the variadic list of
  interface names.
\<close>

record 'st Server =
  LastRotation :: int
  captureManagerStatus :: "string list \<Rightarrow> (string \<rightharpoonup> 'st)"

text \<open>
  \<open>getStatus\<close> returns what it passes to \<open>c.JSON\<close>: the HTTP status code and the body.
  \<open>len(resp.Statuses) == 0\<close> on a map is emptiness of its domain.
\<close>

definition getStatus :: "'st Server \<Rightarrow> string \<Rightarrow> int \<times> 'st StatusResponse" where
  "getStatus server iface =
     (let resp0 = \<lparr>StatusCode = StatusOK, LastWriteout = LastRotation server,
                    Statuses = Map.empty\<rparr>;
          resp1 = (if iface \<noteq> []
                   then resp0\<lparr>Statuses := captureManagerStatus server [iface]\<rparr>
                   else resp0\<lparr>Statuses := captureManagerStatus server []\<rparr>);
          resp2 = (if dom (Statuses resp1) = {}
                   then resp1\<lparr>StatusCode := StatusNoContent\<rparr>
                   else resp1)
      in (StatusCode resp2, resp2))"

section \<open>Packet classifier\<close>

subsection \<open>Test fixtures of the source (GPPacket test file)\<close>

datatype Direction = DirectionRemains | DirectionReverts

definition ICMP :: byte where "ICMP = 1"
definition TCP :: byte where "TCP = 6"
definition UDP :: byte where "UDP = 17"
definition ICMPv6 :: byte where "ICMPv6 = 58"

record GPPacket =
  isIPv4 :: bool
  epHash :: "byte list"
  auxInfo :: byte

record testParams =
  sip :: string
  dip :: string
  sport :: uint16
  dport :: uint16
  proto :: byte
  tp_auxInfo :: byte
  expectedDirection :: Direction

text \<open>\<open>binary.BigEndian.PutUint16\<close> into a fresh two-byte slice.\<close>

definition uint16ToPort :: "uint16 \<Rightarrow> byte list" where
  "uint16ToPort p = [ucast (drop_bit 8 p), ucast p]"

text \<open>\<open>binary.BigEndian.PutUint16(res[off:off+2], p)\<close> on a slice long enough.\<close>

definition PutUint16 :: "byte list \<Rightarrow> nat \<Rightarrow> uint16 \<Rightarrow> byte list" where
  "PutUint16 res off p = res[off := ucast (drop_bit 8 p), off + 1 := ucast p]"

text \<open>
  Go's \<open>copy(res[off:], src)\<close>: the bytes of \<open>src\<close> that fit replace those of \<open>res\<close>
  from \<open>off\<close> on; the length of \<open>res\<close> does not change.
\<close>

definition copy_at :: "byte list \<Rightarrow> nat \<Rightarrow> byte list \<Rightarrow> byte list" where
  "copy_at res off src =
     map (\<lambda>k. if off \<le> k \<and> k < off + length src then src ! (k - off) else res ! k)
         [0..<length res]"

text \<open>
  \<open>genEPHash\<close>: the 37-byte key of a test case. \<open>netip.ParseAddr\<close> followed by
  \<open>As4\<close>/\<open>As16\<close> is the parameter \<open>parse\<close>, which yields the 4 or 16 address bytes.
\<close>

definition genEPHash :: "(string \<Rightarrow> byte list) \<Rightarrow> testParams \<Rightarrow> byte list \<times> bool" where
  "genEPHash parse p =
     (let src = parse (sip p); dst = parse (dip p);
          v4 = (length src = 4);
          res = replicate 37 0;
          res = copy_at res 0 src;
          res = copy_at res 16 dst;
          res = PutUint16 res 32 (dport p);
          res = PutUint16 res 34 (sport p);
          res = res[36 := proto p]
      in (res, v4))"

definition genTestPacket :: "(string \<Rightarrow> byte list) \<Rightarrow> testParams \<Rightarrow> GPPacket" where
  "genTestPacket parse p =
     (let (h, v4) = genEPHash parse p
      in \<lparr>isIPv4 = v4, epHash = h, auxInfo = tp_auxInfo p\<rparr>)"

definition tc :: "string \<Rightarrow> string \<Rightarrow> uint16 \<Rightarrow> uint16 \<Rightarrow> byte \<Rightarrow> byte \<Rightarrow> Direction \<Rightarrow> testParams" where
  "tc s d sp dp pr aux dir =
     \<lparr>sip = s, dip = d, sport = sp, dport = dp, proto = pr, tp_auxInfo = aux,
      expectedDirection = dir\<rparr>"

definition testCases :: "testParams list" where
  "testCases =
    [tc ''2c04:4000::6ab'' ''2c01:2000::3'' 0 0 ICMPv6 0x80 DirectionRemains,
     tc ''2c01:2000::3'' ''2c04:4000::6ab'' 0 0 ICMPv6 0x81 DirectionReverts,
     tc ''fe80::3df3:abbf:3d8d:7f03'' ''ff02::2'' 0 0 ICMPv6 0x86 DirectionRemains,
     tc ''10.0.0.1'' ''10.0.0.2'' 0 0 ICMP 0x08 DirectionRemains,
     tc ''10.0.0.2'' ''10.0.0.1'' 0 0 ICMP 0x00 DirectionReverts,
     tc ''10.0.0.1'' ''10.0.0.2'' 37485 17500 TCP 0 DirectionRemains,
     tc ''10.0.0.2'' ''10.0.0.1'' 17500 34000 TCP 0 DirectionReverts,
     tc ''2c04:4000::6ab'' ''2c01:2000::3'' 37485 17500 TCP 0 DirectionRemains,
     tc ''2c01:2000::3'' ''2c04:4000::6ab'' 17500 34000 TCP 0 DirectionReverts,
     tc ''10.0.0.1'' ''4.5.6.7'' 33561 444 UDP 0 DirectionRemains,
     tc ''4.5.6.7'' ''10.0.0.1'' 444 33561 UDP 0 DirectionReverts,
     tc ''10.0.0.1'' ''4.5.6.7'' 33561 33560 UDP 0 DirectionRemains,
     tc ''4.5.6.7'' ''10.0.0.1'' 33560 33561 UDP 0 DirectionReverts,
     tc ''10.0.0.1'' ''4.5.6.7'' 445 444 UDP 0 DirectionRemains,
     tc ''4.5.6.7'' ''10.0.0.1'' 444 445 UDP 0 DirectionReverts,
     tc ''10.0.0.1'' ''4.5.6.7'' 33561 33561 UDP 0 DirectionRemains,
     tc ''10.0.0.1'' ''4.5.6.7'' 444 444 UDP 0 DirectionRemains,
     tc ''0.0.0.0'' ''255.255.255.255'' 68 67 UDP 0 DirectionRemains,
     tc ''10.0.0.1'' ''10.0.0.2'' 67 68 UDP 0 DirectionReverts,
     tc ''10.0.0.1'' ''4.5.6.7'' 0 53 UDP 0 DirectionRemains,
     tc ''10.0.0.1'' ''4.5.6.7'' 0 53 TCP 0 DirectionRemains,
     tc ''10.0.0.1'' ''4.5.6.7'' 0 80 TCP 0 DirectionRemains,
     tc ''10.0.0.1'' ''4.5.6.7'' 0 443 TCP 0 DirectionRemains,
     tc ''2c04:4000::6ab'' ''2c04:4000::6ab'' 33561 33561 UDP 0 DirectionRemains,
     tc ''2c04:4000::6ab'' ''2c04:4000::6ab'' 444 444 UDP 0 DirectionRemains,
     tc ''2c04:4000::6ab'' ''2c04:4000::6ab'' 0 53 UDP 0 DirectionRemains]"

subsection \<open>The classifier\<close>

text \<open>\<open>binary.BigEndian.Uint16\<close> of a two-byte port.\<close>

definition portValue :: "byte list \<Rightarrow> uint16" where
  "portValue port = push_bit 8 (ucast (port ! 0)) OR ucast (port ! 1)"

text \<open>The fields of the 37-byte key, at the offsets \<open>genEPHash\<close> writes them.\<close>

definition pkt_dport :: "GPPacket \<Rightarrow> byte list" where
  "pkt_dport pkt = [epHash pkt ! 32, epHash pkt ! 33]"

definition pkt_sport :: "GPPacket \<Rightarrow> byte list" where
  "pkt_sport pkt = [epHash pkt ! 34, epHash pkt ! 35]"

definition pkt_proto :: "GPPacket \<Rightarrow> byte" where
  "pkt_proto pkt = epHash pkt ! 36"

text \<open>
  Modelled from the spec: \<open>isCommonPort\<close>, of which the repository's sources here hold only
  the test \<open>TestPortMergeLogic\<close>. The spec: a port is "common" if TCP and in {53, 80, 443},
  or UDP and in {53, 443}. The port arrives as its two big-endian bytes, as the test
  passes it.
\<close>

definition isCommonPort :: "byte list \<Rightarrow> byte \<Rightarrow> bool" where
  "isCommonPort port pr =
     (let p = portValue port
      in (pr = TCP \<and> (p = 53 \<or> p = 80 \<or> p = 443)) \<or> (pr = UDP \<and> (p = 53 \<or> p = 443)))"

text \<open>
  Modelled from the spec: the direction rules of \<open>ClassifyPacketDirection\<close>, of which the
  sources here hold only the tests. Each rule of section 4.C is a function that yields a
  direction when the rule applies and \<open>None\<close> when the packet falls through.
\<close>

definition ruleICMP :: "GPPacket \<Rightarrow> Direction option" where
  "ruleICMP pkt =
     (if pkt_proto pkt = ICMP then
        (if auxInfo pkt = 0x08 then Some DirectionRemains
         else if auxInfo pkt = 0x00 then Some DirectionReverts
         else None)
      else if pkt_proto pkt = ICMPv6 then
        (if auxInfo pkt = 0x80 then Some DirectionRemains
         else if auxInfo pkt = 0x81 then Some DirectionReverts
         else if auxInfo pkt = 0x86 then Some DirectionRemains
         else None)
      else None)"

definition ruleCommonPort :: "GPPacket \<Rightarrow> Direction option" where
  "ruleCommonPort pkt =
     (let sc = isCommonPort (pkt_sport pkt) (pkt_proto pkt);
          dc = isCommonPort (pkt_dport pkt) (pkt_proto pkt)
      in if dc \<and> \<not> sc then Some DirectionRemains
         else if sc \<and> \<not> dc then Some DirectionReverts
         else None)"

definition ruleDHCP :: "GPPacket \<Rightarrow> Direction option" where
  "ruleDHCP pkt =
     (let s = portValue (pkt_sport pkt); d = portValue (pkt_dport pkt)
      in if pkt_proto pkt = UDP \<and> s = 68 \<and> d = 67 then Some DirectionRemains
         else if pkt_proto pkt = UDP \<and> s = 67 \<and> d = 68 then Some DirectionReverts
         else None)"

definition isWellKnownPort :: "byte list \<Rightarrow> byte \<Rightarrow> bool" where
  "isWellKnownPort port pr = (portValue port \<le> 1024 \<or> isCommonPort port pr)"

definition ruleZeroPort :: "GPPacket \<Rightarrow> Direction option" where
  "ruleZeroPort pkt =
     (let s = portValue (pkt_sport pkt); d = portValue (pkt_dport pkt)
      in if s = 0 \<and> isWellKnownPort (pkt_dport pkt) (pkt_proto pkt) then Some DirectionRemains
         else if d = 0 \<and> isWellKnownPort (pkt_sport pkt) (pkt_proto pkt) then Some DirectionReverts
         else None)"

definition isPrivilegedPort :: "byte list \<Rightarrow> bool" where
  "isPrivilegedPort port = (portValue port < 1024)"

definition rulePrivileged :: "GPPacket \<Rightarrow> Direction option" where
  "rulePrivileged pkt =
     (let sp = isPrivilegedPort (pkt_sport pkt); dp = isPrivilegedPort (pkt_dport pkt)
      in if dp \<and> \<not> sp then Some DirectionRemains
         else if sp \<and> \<not> dp then Some DirectionReverts
         else None)"

definition rulePortOrder :: "GPPacket \<Rightarrow> Direction" where
  "rulePortOrder pkt =
     (let s = portValue (pkt_sport pkt); d = portValue (pkt_dport pkt)
      in if s > d then DirectionRemains
         else if s < d then DirectionReverts
         else DirectionRemains)"

text \<open>
  The classifier tries the rules in the spec's order. The second component is
  \<open>directionConfidenceHigh\<close>: true for rules 1 to 5, false for rules 6 and 7.
\<close>

definition classify :: "GPPacket \<Rightarrow> Direction \<times> bool" where
  "classify pkt =
     (case ruleICMP pkt of Some d \<Rightarrow> (d, True) | None \<Rightarrow>
      (case ruleCommonPort pkt of Some d \<Rightarrow> (d, True) | None \<Rightarrow>
      (case ruleDHCP pkt of Some d \<Rightarrow> (d, True) | None \<Rightarrow>
      (case ruleZeroPort pkt of Some d \<Rightarrow> (d, True) | None \<Rightarrow>
      (case rulePrivileged pkt of Some d \<Rightarrow> (d, True) | None \<Rightarrow>
      (rulePortOrder pkt, False))))))"

definition ClassifyPacketDirection :: "GPPacket \<Rightarrow> Direction" where
  "ClassifyPacketDirection pkt = fst (classify pkt)"

definition directionConfidenceHigh :: "GPPacket \<Rightarrow> bool" where
  "directionConfidenceHigh pkt = snd (classify pkt)"

text \<open>A packet of the test table (UDP 33560 to 33561), as a 37-byte key.\<close>

definition pktA :: GPPacket where
  "pktA = \<lparr>isIPv4 = True, epHash = replicate 32 0 @ [0x83, 0x19, 0x83, 0x18, 17], auxInfo = 0\<rparr>"

section \<open>Capture state machine (capture.go)\<close>

definition Snaplen :: int where
  "Snaplen = 128"

definition ErrorThreshold :: int where
  "ErrorThreshold = 10000"

subsection \<open>Ancillary types\<close>

text \<open>\<open>State\<close> is a byte; the named states start at \<open>iota + 1\<close>, so the zero value is none of them.\<close>

definition StateInitializing :: byte where "StateInitializing = 1"
definition StateCapturing :: byte where "StateCapturing = 2"
definition StateClosing :: byte where "StateClosing = 3"
definition StateError :: byte where "StateError = 4"

record CaptureStats =
  PacketsReceived :: int
  PacketsDropped :: int

text \<open>\<open>Stats\<close> embeds a pointer to the capture statistics: \<open>None\<close> is the nil pointer.\<close>

record Stats =
  stats_CaptureStats :: "CaptureStats option"
  PacketsLogged :: int

record Status =
  status_State :: byte
  status_Stats :: Stats

text \<open>The fields of \<open>config.CaptureConfig\<close> that the capture reads.\<close>

record CaptureConfig =
  Promisc :: bool
  BufferSize :: int

text \<open>
  The capture. \<open>cmdChanClosed\<close> records whether \<open>close(c.cmdChan)\<close> has run. The capture
  handle is represented by the statistics it reports (\<open>None\<close> is the nil handle). The
  flow log is kept as the sequence of packets handed to \<open>flowLog.Add\<close>; the flow log's
  own operations are outside these sources.
\<close>

record Capture =
  iface :: string
  closed :: bool
  state :: byte
  config :: CaptureConfig
  cmdChanClosed :: bool
  lastRotationStats :: Stats
  packetsLogged :: int
  flowLog :: "GPPacket list"
  captureHandle :: "CaptureStats option"
  errMap :: "string \<rightharpoonup> int"

datatype captureCommand =
    captureCommandStatus
  | captureCommandErrors
  | captureCommandFlows
  | captureCommandUpdate CaptureConfig
  | captureCommandRotate

text \<open>The state functions, by name; Go's nil state function is \<open>Exit\<close>.\<close>

datatype stateFn = Initializing | Capturing | InError | Closing

datatype fsmResult = Next stateFn | Exit | Blocked

subsection \<open>State functions\<close>

definition setState :: "Capture \<Rightarrow> byte \<Rightarrow> Capture" where
  "setState c s = c\<lparr>state := s\<rparr>"

definition reset :: "Capture \<Rightarrow> Capture" where
  "reset c =
     c\<lparr>lastRotationStats := (lastRotationStats c)
          \<lparr>stats_CaptureStats := Some \<lparr>PacketsReceived = 0, PacketsDropped = 0\<rparr>\<rparr>,
       captureHandle := None,
       errMap := Map.empty\<rparr>"

definition needReinitialization :: "Capture \<Rightarrow> CaptureConfig \<Rightarrow> bool" where
  "needReinitialization c cfg = (config c \<noteq> cfg)"

definition tryGetCaptureStats :: "Capture \<Rightarrow> CaptureStats" where
  "tryGetCaptureStats c =
     (case captureHandle c of
        None \<Rightarrow> \<lparr>PacketsReceived = 0, PacketsDropped = 0\<rparr>
      | Some st \<Rightarrow> \<lparr>PacketsReceived = PacketsReceived st, PacketsDropped = PacketsDropped st\<rparr>)"

text \<open>
  \<open>execute\<close> of each command: the capture afterwards and the next state function, if any.
  The replies on the commands' return channels are not part of the state machine.
\<close>

fun execute :: "captureCommand \<Rightarrow> Capture \<Rightarrow> Capture \<times> stateFn option" where
  "execute captureCommandStatus c = (c, None)"
| "execute captureCommandErrors c = (c, None)"
| "execute captureCommandFlows c = (c, None)"
| "execute (captureCommandUpdate cfg) c =
     (if needReinitialization c cfg
      then ((reset c)\<lparr>config := cfg\<rparr>, Some Initializing)
      else (c, None))"
| "execute captureCommandRotate c =
     (c\<lparr>lastRotationStats :=
          \<lparr>stats_CaptureStats = Some (tryGetCaptureStats c), PacketsLogged = packetsLogged c\<rparr>\<rparr>,
      None)"

text \<open>The errors the packet-processing task can put on \<open>captureErrors\<close>.\<close>

datatype processError = CaptureError | TooManyDecodeErrors

text \<open>What the blocking \<open>select\<close> of a state receives.\<close>

datatype selectEvent = CtxDone | RecvCmd captureCommand | RecvErr processError

text \<open>\<open>initializing\<close>, given whether \<open>NewRingBufSource\<close> yields a handle.\<close>

definition initializing :: "Capture \<Rightarrow> CaptureStats option \<Rightarrow> Capture \<times> fsmResult" where
  "initializing c src =
     (let c = setState c StateInitializing;
          c = c\<lparr>captureHandle := src\<rparr>
      in if src = None then (c, Next InError) else (c, Next Capturing))"

text \<open>\<open>capturing\<close> runs one \<open>select\<close>: the event is what that \<open>select\<close> receives.\<close>

definition capturing :: "Capture \<Rightarrow> selectEvent \<Rightarrow> Capture \<times> fsmResult" where
  "capturing c ev =
     (let c = setState c StateCapturing
      in case ev of
           CtxDone \<Rightarrow> (c, Next Closing)
         | RecvCmd cmd \<Rightarrow>
             (case execute cmd c of
                (c', Some nextState) \<Rightarrow> (c', Next nextState)
              | (c', None) \<Rightarrow> (c', Exit))
         | RecvErr err \<Rightarrow> (c, Next InError))"

text \<open>
  \<open>inError\<close> loops over its \<open>select\<close>, which has no case for \<open>captureErrors\<close>: an error
  offered there is not received. The result carries the events that are left; when the
  events run out the state is still waiting.
\<close>

fun inErrorLoop :: "Capture \<Rightarrow> selectEvent list \<Rightarrow> Capture \<times> fsmResult \<times> selectEvent list" where
  "inErrorLoop c [] = (c, Blocked, [])"
| "inErrorLoop c (CtxDone # evs) = (c, Next Closing, evs)"
| "inErrorLoop c (RecvCmd cmd # evs) =
     (case execute cmd c of
        (c', Some nextState) \<Rightarrow> (c', Next nextState, evs)
      | (c', None) \<Rightarrow> inErrorLoop c' evs)"
| "inErrorLoop c (RecvErr err # evs) = inErrorLoop c evs"

definition inError :: "Capture \<Rightarrow> selectEvent list \<Rightarrow> Capture \<times> fsmResult \<times> selectEvent list" where
  "inError c evs = inErrorLoop (setState c StateError) evs"

definition closing :: "Capture \<Rightarrow> Capture \<times> fsmResult" where
  "closing c =
     (let c = setState c StateClosing;
          c = reset c;
          c = c\<lparr>cmdChanClosed := True\<rparr>;
          c = c\<lparr>closed := True\<rparr>
      in (c, Exit))"

subsection \<open>The packet-processing task\<close>

text \<open>
  One iteration of \<open>capturePacket\<close> sees one of: an error of \<open>NextPacket\<close> (which either
  wraps \<open>ErrCaptureStopped\<close> or does not), a packet that \<open>Populate\<close> decodes, or a
  packet on which \<open>Populate\<close> fails with an error string.
\<close>

datatype packetEvent =
    NextPacketError bool
  | Decoded GPPacket
  | DecodeFailed string

text \<open>
  How \<open>process\<close> ends: it returns after a graceful stop, it puts a fatal error on
  \<open>captureErrors\<close> and returns, or (the feed being finite here) it is waiting in
  \<open>NextPacket\<close>.
\<close>

datatype processExit = Stopped | SentError processError | AwaitingPacket

definition bumpErr :: "(string \<rightharpoonup> int) \<Rightarrow> string \<Rightarrow> (string \<rightharpoonup> int)" where
  "bumpErr m k = m(k \<mapsto> (case m k of None \<Rightarrow> 1 | Some n \<Rightarrow> n + 1))"

fun processLoop :: "packetEvent list \<Rightarrow> int \<Rightarrow> Capture \<Rightarrow> processExit \<times> int \<times> Capture" where
  "processLoop [] errcount c = (AwaitingPacket, errcount, c)"
| "processLoop (NextPacketError stopped # evs) errcount c =
     (if stopped then (Stopped, errcount, c) else (SentError CaptureError, errcount, c))"
| "processLoop (Decoded p # evs) errcount c =
     processLoop evs 0 (c\<lparr>flowLog := flowLog c @ [p], packetsLogged := packetsLogged c + 1\<rparr>)"
| "processLoop (DecodeFailed msg # evs) errcount c =
     (let errcount = errcount + 1;
          c = c\<lparr>errMap := bumpErr (errMap c) msg\<rparr>
      in if errcount > ErrorThreshold
         then (SentError TooManyDecodeErrors, errcount, c)
         else processLoop evs errcount c)"

definition process :: "Capture \<Rightarrow> packetEvent list \<Rightarrow> processExit \<times> int \<times> Capture" where
  "process c evs = processLoop evs 0 c"

subsection \<open>Public methods\<close>

text \<open>
  A public method either returns without touching the command channel, or executes
  \<open>c.cmdChan <- cmd\<close> and then waits for the reply.
\<close>

datatype 'r call = Return 'r | SendCmd captureCommand

text \<open>What the send statement does in Go: it panics on a closed channel.\<close>

datatype sendOutcome = SendPanics | SendWaitsForReceiver

definition chanSend :: "Capture \<Rightarrow> sendOutcome" where
  "chanSend c = (if cmdChanClosed c then SendPanics else SendWaitsForReceiver)"

definition zeroStatus :: Status where
  "zeroStatus = \<lparr>status_State = 0,
                  status_Stats = \<lparr>stats_CaptureStats = None, PacketsLogged = 0\<rparr>\<rparr>"

definition Status :: "Capture \<Rightarrow> Status call" where
  "Status c = (if closed c then Return zeroStatus else SendCmd captureCommandStatus)"

definition Errors :: "Capture \<Rightarrow> (string \<rightharpoonup> int) option call" where
  "Errors c = (if closed c then Return None else SendCmd captureCommandErrors)"

definition Flows :: "Capture \<Rightarrow> GPPacket list option call" where
  "Flows c = (if closed c then Return None else SendCmd captureCommandFlows)"

definition Update :: "Capture \<Rightarrow> CaptureConfig \<Rightarrow> unit call" where
  "Update c cfg = (if closed c then Return () else SendCmd (captureCommandUpdate cfg))"

definition Rotate :: "Capture \<Rightarrow> (GPPacket list option \<times> Stats) call" where
  "Rotate c = SendCmd captureCommandRotate"

definition NewCapture :: "string \<Rightarrow> CaptureConfig \<Rightarrow> Capture" where
  "NewCapture ifc cfg =
     \<lparr>iface = ifc, closed = False, state = 0, config = cfg, cmdChanClosed = False,
      lastRotationStats = \<lparr>stats_CaptureStats = Some \<lparr>PacketsReceived = 0, PacketsDropped = 0\<rparr>,
                           PacketsLogged = 0\<rparr>,
      packetsLogged = 0, flowLog = [], captureHandle = None, errMap = Map.empty\<rparr>"

subsection \<open>Runs of decode failures\<close>

text \<open>
  "More than \<open>n\<close> consecutive decode failures occur" in a feed: at some position of the
  feed, read up to the first error of \<open>NextPacket\<close>, more than \<open>n\<close> failed decodes follow
  one another.
\<close>

fun isDecodeFailed :: "packetEvent \<Rightarrow> bool" where
  "isDecodeFailed (DecodeFailed msg) = True"
| "isDecodeFailed ev = False"

fun isDecodeEvent :: "packetEvent \<Rightarrow> bool" where
  "isDecodeEvent (NextPacketError stopped) = False"
| "isDecodeEvent ev = True"

definition leadingFailures :: "packetEvent list \<Rightarrow> nat" where
  "leadingFailures evs = length (takeWhile isDecodeFailed evs)"

definition failureRunExceeds :: "int \<Rightarrow> packetEvent list \<Rightarrow> bool" where
  "failureRunExceeds n evs = (\<exists>i. n < int (leadingFailures (drop i (takeWhile isDecodeEvent evs))))"


definition badFeed :: "nat \<Rightarrow> packetEvent list" where
  "badFeed n = replicate n (DecodeFailed ''invalid packet'')"


section \<open>Block file (pkg/goDB/GPFile.go)\<close>

definition BufSize :: nat where
  "BufSize = 4096"

definition NumElements :: nat where
  "NumElements = BufSize div 8"

text \<open>
  Every error return of the file's functions, and the two run-time panics they can raise
  (an index out of range, a negative length given to \<open>make\<close>).
\<close>

datatype gpError =
    InvalidHeaderBlocks
  | InvalidHeaderLookupTable
  | InvalidHeaderBlockLengths
  | EndOfFile
  | OpenError
  | SeekError
  | CouldNotRetrieveBlocks
  | BlockEmpty int
  | IncorrectBytesRead
  | TimestampNotFound int64
  | TimestampExists int64
  | FileIsFull
  | CompressError
  | PanicIndexOutOfRange
  | PanicMakeSliceLen

subsection \<open>The encoder\<close>

text \<open>
  The \<open>Encoder\<close> interface is declared outside these sources, so an encoder is a
  parameter. \<open>Compress(data, dst)\<close> writes some bytes to \<open>dst\<close> and returns a count and
  an error. \<open>Decompress(in, out, src)\<close> is given the lengths of its two buffers and the
  bytes the reader \<open>src\<close> still holds; it returns a count and an error, the bytes it
  leaves in \<open>out\<close>, and how many bytes it took from \<open>src\<close>. Go's \<open>int\<close> is taken to be
  64 bits wide.
\<close>

record compressResult =
  written :: "byte list"
  nWrite :: int64
  compressErr :: bool

record decompressResult =
  uncompLen :: int64
  decompressErr :: bool
  outBytes :: "byte list"
  consumed :: nat

record Encoder =
  Compress :: "byte list \<Rightarrow> compressResult"
  Decompress :: "nat \<Rightarrow> nat \<Rightarrow> byte list \<Rightarrow> decompressResult"

subsection \<open>The file object\<close>

text \<open>
  The header arrays, the read handle \<open>curFile\<close> (\<open>None\<close> is nil, otherwise the handle's
  offset), the header write buffer and the last seek position. The file system is the
  content of the one file at \<open>filename\<close>, \<open>None\<close> when the file does not exist.
\<close>

record GPFile =
  blocks :: "int64 list"
  timestamps :: "int64 list"
  lengths :: "int64 list"
  curFile :: "nat option"
  wBuf :: "byte list"
  lastSeekPos :: int64

text \<open>The slices have the lengths \<open>NewGPFile\<close> gives them; nothing changes them later.\<close>

definition sized :: "GPFile \<Rightarrow> bool" where
  "sized f \<longleftrightarrow> length (blocks f) = NumElements \<and> length (timestamps f) = NumElements \<and>
     length (lengths f) = NumElements \<and> length (wBuf f) = BufSize * 3"

text \<open>
  \<open>f.Read(buf)\<close> on a regular file of content \<open>d\<close> at offset \<open>off\<close>: the bytes read, or
  \<open>io.EOF\<close> when none are left.
\<close>

definition fileRead :: "byte list \<Rightarrow> nat \<Rightarrow> nat \<Rightarrow> gpError + byte list" where
  "fileRead d off n =
     (if n = 0 then Inr []
      else if length d \<le> off then Inl EndOfFile
      else Inr (take n (drop off d)))"

text \<open>A buffer of \<open>n\<close> zero bytes after \<open>bs\<close> has been read into it.\<close>

definition filled :: "nat \<Rightarrow> byte list \<Rightarrow> byte list" where
  "filled n bs = take n (bs @ replicate (n - length bs) 0)"

text \<open>The shift-or decoding of one header slot.\<close>

definition getInt64 :: "byte list \<Rightarrow> nat \<Rightarrow> int64" where
  "getInt64 buf pos =
     push_bit 56 (ucast (buf ! pos)) OR push_bit 48 (ucast (buf ! (pos + 1))) OR
     push_bit 40 (ucast (buf ! (pos + 2))) OR push_bit 32 (ucast (buf ! (pos + 3))) OR
     push_bit 24 (ucast (buf ! (pos + 4))) OR push_bit 16 (ucast (buf ! (pos + 5))) OR
     push_bit 8 (ucast (buf ! (pos + 6))) OR ucast (buf ! (pos + 7))"

text \<open>The byte-shift encoding: \<open>byte(v >> uint(56-(j*8)))\<close>, with Go's arithmetic shift.\<close>

definition byteOf :: "int64 \<Rightarrow> nat \<Rightarrow> byte" where
  "byteOf v j = ucast (signed_drop_bit (56 - j * 8) v)"

text \<open>The header-reading loop of \<open>NewGPFile\<close>.\<close>

definition parseHeader :: "byte list \<Rightarrow> byte list \<Rightarrow> byte list \<Rightarrow> nat \<times> int64 list \<times> int64 list \<times> int64 list" where
  "parseHeader bufH bufTS bufLen =
     fold (\<lambda>i (pos, h, ts, le).
             (pos + 8, h[i := getInt64 bufH pos], ts[i := getInt64 bufTS pos],
              le[i := getInt64 bufLen pos]))
          [0..<NumElements]
          (0, replicate NumElements 0, replicate NumElements 0, replicate NumElements 0)"

definition headerChecked :: "byte list \<Rightarrow> byte list \<Rightarrow> byte list \<Rightarrow> nat \<Rightarrow> gpError + GPFile" where
  "headerChecked bH bTS bLen off =
     (if length bH \<noteq> BufSize then Inl InvalidHeaderBlocks
      else if length bTS \<noteq> BufSize then Inl InvalidHeaderLookupTable
      else if length bLen \<noteq> BufSize then Inl InvalidHeaderBlockLengths
      else (case parseHeader (filled BufSize bH) (filled BufSize bTS) (filled BufSize bLen) of
              (pos, h, ts, le) \<Rightarrow>
                Inr \<lparr>blocks = h, timestamps = ts, lengths = le, curFile = Some off,
                     wBuf = replicate (BufSize * 3) 0, lastSeekPos = 0\<rparr>))"

text \<open>
  \<open>NewGPFile\<close>: the file object or the error, and the file system afterwards. An existing
  file is read through three \<open>Read\<close> calls; a missing one is created with three zero
  buffers (the creation and its writes are taken to succeed).
\<close>

definition NewGPFile :: "byte list option \<Rightarrow> (gpError + GPFile) \<times> byte list option" where
  "NewGPFile fs =
     (case fs of
        Some d \<Rightarrow>
          (case fileRead d 0 BufSize of
             Inl e \<Rightarrow> (Inl e, fs)
           | Inr bH \<Rightarrow>
          (case fileRead d (length bH) BufSize of
             Inl e \<Rightarrow> (Inl e, fs)
           | Inr bTS \<Rightarrow>
          (case fileRead d (length bH + length bTS) BufSize of
             Inl e \<Rightarrow> (Inl e, fs)
           | Inr bLen \<Rightarrow>
               (headerChecked bH bTS bLen (length bH + length bTS + length bLen), fs))))
      | None \<Rightarrow>
          (let z = replicate BufSize 0
           in (headerChecked z z z (BufSize * 3), Some (z @ z @ z))))"

subsection \<open>Reading\<close>

definition emptySlot :: "GPFile \<Rightarrow> nat \<Rightarrow> bool" where
  "emptySlot f i \<longleftrightarrow> timestamps f ! i = 0 \<and> blocks f ! i = 0 \<and> lengths f ! i = 0"

text \<open>\<open>BlocksUsed\<close> returns a pair: the count and the error (\<open>None\<close> is nil).\<close>

function BlocksUsedLoop :: "GPFile \<Rightarrow> nat \<Rightarrow> int \<times> gpError option" where
  "BlocksUsedLoop f i =
     (if i < NumElements then
        (if timestamps f ! i = 0 \<and> blocks f ! i = 0 \<and> lengths f ! i = 0
         then (int i, None)
         else BlocksUsedLoop f (i + 1))
      else (- 1, Some CouldNotRetrieveBlocks))"
  by pat_completeness auto
termination
  by (relation "measure (\<lambda>(f, i). NumElements - i)") auto

declare BlocksUsedLoop.simps [simp del]

definition BlocksUsed :: "GPFile \<Rightarrow> int \<times> gpError option" where
  "BlocksUsed f = BlocksUsedLoop f 0"

text \<open>
  The seek position and the read length that \<open>ReadBlock\<close> computes for a block: the
  block starts where the previous one ends, or at the end of the header.
\<close>

definition seekPosOf :: "GPFile \<Rightarrow> nat \<Rightarrow> int64" where
  "seekPosOf f b = (if b \<noteq> 0 then blocks f ! (b - 1) else of_nat (BufSize * 3))"

definition readLenOf :: "GPFile \<Rightarrow> nat \<Rightarrow> int64" where
  "readLenOf f b = (if b \<noteq> 0 then blocks f ! b - blocks f ! (b - 1)
                    else blocks f ! b - of_nat (BufSize * 3))"

text \<open>
  \<open>ReadBlock\<close>: the data or the error, and the file object afterwards (the handle and
  \<open>lastSeekPos\<close> change). The error of \<open>Decompress\<close> is assigned and never looked at.
\<close>

definition ReadBlock :: "Encoder \<Rightarrow> byte list option \<Rightarrow> GPFile \<Rightarrow> int \<Rightarrow> (gpError + byte list) \<times> GPFile" where
  "ReadBlock enc fs f block =
     (if block < 0 \<or> int (length (timestamps f)) \<le> block \<or> int (length (blocks f)) \<le> block
         \<or> int (length (lengths f)) \<le> block
      then (Inl PanicIndexOutOfRange, f)
      else
        let b = nat block in
        if timestamps f ! b = 0 \<and> blocks f ! b = 0 \<and> lengths f ! b = 0
        then (Inl (BlockEmpty block), f)
        else
          (case (case curFile f of
                   Some off \<Rightarrow> Some off
                 | None \<Rightarrow> (case fs of None \<Rightarrow> None | Some d \<Rightarrow> Some 0)) of
             None \<Rightarrow> (Inl OpenError, f)
           | Some off \<Rightarrow>
               let f = f\<lparr>curFile := Some off\<rparr>;
                   seekPos = seekPosOf f b;
                   readLen = readLenOf f b
               in
               if seekPos \<noteq> lastSeekPos f \<and> seekPos <s 0
               then (Inl SeekError, f)
               else
                 let off = (if seekPos \<noteq> lastSeekPos f then unat seekPos else off);
                     f = (if seekPos \<noteq> lastSeekPos f
                          then f\<lparr>curFile := Some off, lastSeekPos := seekPos\<rparr> else f)
                 in
                 if readLen <s 0 \<or> lengths f ! b <s 0
                 then (Inl PanicMakeSliceLen, f)
                 else
                   let src = drop off (case fs of None \<Rightarrow> [] | Some d \<Rightarrow> d);
                       r = Decompress enc (unat readLen) (unat (lengths f ! b)) src;
                       buf = take (unat (lengths f ! b))
                               (outBytes r @ replicate (unat (lengths f ! b)) 0);
                       f = f\<lparr>curFile := Some (off + min (consumed r) (length src))\<rparr>
                   in
                   if uncompLen r \<noteq> readLen
                   then (Inl IncorrectBytesRead, f)
                   else (Inr buf, f)))"

function ReadTimedBlockLoop :: "Encoder \<Rightarrow> byte list option \<Rightarrow> GPFile \<Rightarrow> int64 \<Rightarrow> nat \<Rightarrow> (gpError + byte list) \<times> GPFile" where
  "ReadTimedBlockLoop enc fs f timestamp i =
     (if i < NumElements then
        (if timestamps f ! i = timestamp
         then ReadBlock enc fs f (int i)
         else ReadTimedBlockLoop enc fs f timestamp (i + 1))
      else (Inl (TimestampNotFound timestamp), f))"
  by pat_completeness auto
termination
  by (relation "measure (\<lambda>(enc, fs, f, timestamp, i). NumElements - i)") auto

declare ReadTimedBlockLoop.simps [simp del]

definition ReadTimedBlock :: "Encoder \<Rightarrow> byte list option \<Rightarrow> GPFile \<Rightarrow> int64 \<Rightarrow> (gpError + byte list) \<times> GPFile" where
  "ReadTimedBlock enc fs f timestamp = ReadTimedBlockLoop enc fs f timestamp 0"

subsection \<open>Writing\<close>

text \<open>
  The slot search of \<open>WriteTimedBlock\<close>: an error for a timestamp met on the way, or the
  position and \<open>nextFreeBlock\<close> (still \<open>-1\<close> when the loop ran to the end).
\<close>

function findSlot :: "GPFile \<Rightarrow> int64 \<Rightarrow> nat \<Rightarrow> gpError + nat \<times> int64" where
  "findSlot f timestamp newPos =
     (if newPos < NumElements then
        (let curTstamp = timestamps f ! newPos
         in if curTstamp = timestamp then Inl (TimestampExists curTstamp)
            else if curTstamp = 0
            then Inr (newPos, if newPos \<noteq> 0 then blocks f ! (newPos - 1) else of_nat (BufSize * 3))
            else findSlot f timestamp (newPos + 1))
      else Inr (newPos, - 1))"
  by pat_completeness auto
termination
  by (relation "measure (\<lambda>(f, timestamp, newPos). NumElements - newPos)") auto

declare findSlot.simps [simp del]

text \<open>The header-writing loops: slot \<open>i\<close> goes to the eight bytes at \<open>pos\<close> of each third.\<close>

definition putSlot :: "GPFile \<Rightarrow> nat \<Rightarrow> nat \<Rightarrow> byte list \<Rightarrow> byte list" where
  "putSlot f i pos w =
     fold (\<lambda>j w. w[pos + j := byteOf (blocks f ! i) j,
                   BufSize + pos + j := byteOf (timestamps f ! i) j,
                   BufSize + BufSize + pos + j := byteOf (lengths f ! i) j])
          [0..<8] w"

definition putHeader :: "GPFile \<Rightarrow> nat \<times> byte list" where
  "putHeader f =
     fold (\<lambda>i (pos, w). (pos + 8, putSlot f i pos w)) [0..<NumElements] (0, wBuf f)"

text \<open>
  \<open>WriteTimedBlock\<close>: the error (\<open>None\<close> is nil), the file object and the file system
  afterwards. The compressed bytes are appended to the file; the header is written over
  its first bytes.
\<close>

definition WriteTimedBlock :: "Encoder \<Rightarrow> byte list option \<Rightarrow> GPFile \<Rightarrow> int64 \<Rightarrow> byte list \<Rightarrow> gpError option \<times> GPFile \<times> byte list option" where
  "WriteTimedBlock enc fs f timestamp data =
     (case findSlot f timestamp 0 of
        Inl e \<Rightarrow> (Some e, f, fs)
      | Inr (newPos, nextFreeBlock) \<Rightarrow>
          if nextFreeBlock = - 1 then (Some FileIsFull, f, fs)
          else
            (case fs of
               None \<Rightarrow> (Some OpenError, f, fs)
             | Some d \<Rightarrow>
                 let r = Compress enc data;
                     d = d @ written r
                 in
                 if compressErr r then (Some CompressError, f, Some d)
                 else
                   let f = f\<lparr>blocks := (blocks f)[newPos := nextFreeBlock + nWrite r],
                              timestamps := (timestamps f)[newPos := timestamp],
                              lengths := (lengths f)[newPos := of_nat (length data)]\<rparr>;
                       f = f\<lparr>wBuf := snd (putHeader f)\<rparr>;
                       d = wBuf f @ drop (length (wBuf f)) d
                   in (None, f, Some d)))"

subsection \<open>Auxiliary notions for the block file\<close>

text \<open>The byte of a value that lies \<open>k\<close> bits up, back at its place.\<close>

definition chunk :: "nat \<Rightarrow> int64 \<Rightarrow> int64" where
  "chunk k v = push_bit k (ucast (ucast (signed_drop_bit k v) :: byte))"

text \<open>The buffer \<open>w\<close> holds the serialised first \<open>n\<close> slots of the three header arrays.\<close>

definition headerOf :: "GPFile \<Rightarrow> nat \<Rightarrow> byte list \<Rightarrow> bool" where
  "headerOf f n w \<longleftrightarrow> length w = BufSize * 3 \<and>
     (\<forall>i<n. \<forall>j<8. w ! (8 * i + j) = byteOf (blocks f ! i) j \<and>
        w ! (BufSize + 8 * i + j) = byteOf (timestamps f ! i) j \<and>
        w ! (BufSize + BufSize + 8 * i + j) = byteOf (lengths f ! i) j)"

text \<open>The file object that \<open>NewGPFile\<close> returns for a path that does not exist.\<close>

definition emptyFile :: GPFile where
  "emptyFile = \<lparr>blocks = replicate NumElements 0, timestamps = replicate NumElements 0,
     lengths = replicate NumElements 0, curFile = Some (BufSize * 3),
     wBuf = replicate (BufSize * 3) 0, lastSeekPos = 0\<rparr>"

text \<open>
  The file object after \<open>WriteTimedBlock\<close> has filled slot \<open>newPos\<close> and serialised the
  header into \<open>wBuf\<close>.
\<close>

definition afterWrite :: "GPFile \<Rightarrow> nat \<Rightarrow> int64 \<Rightarrow> int64 \<Rightarrow> nat \<Rightarrow> GPFile" where
  "afterWrite f newPos off ts n =
     (let f = f\<lparr>blocks := (blocks f)[newPos := off],
                timestamps := (timestamps f)[newPos := ts],
                lengths := (lengths f)[newPos := of_nat n]\<rparr>
      in f\<lparr>wBuf := snd (putHeader f)\<rparr>)"

text \<open>
  An encoder for concrete runs: it stores a payload as a tag byte followed by the payload,
  and its \<open>Decompress\<close> returns the number of bytes it read.
\<close>

definition tagEncoder :: Encoder where
  "tagEncoder =
     \<lparr>Compress = (\<lambda>data. \<lparr>written = 1 # data, nWrite = of_nat (length data + 1),
                              compressErr = False\<rparr>),
      Decompress = (\<lambda>inLen outLen src.
         \<lparr>uncompLen = of_nat (length (take inLen src)),
          decompressErr = (length (take inLen src) \<noteq> inLen),
          outBytes = take outLen (drop 1 (take inLen src)),
          consumed = inLen\<rparr>)\<rparr>"

text \<open>A file object with all 512 slots used (one-byte payloads at timestamps 1 to 512).\<close>

definition fullFile :: GPFile where
  "fullFile = \<lparr>blocks = map (\<lambda>i. of_nat (BufSize * 3 + 2 * (i + 1))) [0..<NumElements],
     timestamps = map (\<lambda>i. of_nat (i + 1)) [0..<NumElements],
     lengths = replicate NumElements 1, curFile = Some (BufSize * 3),
     wBuf = replicate (BufSize * 3) 0, lastSeekPos = 0\<rparr>"

text \<open>
  What \<open>ReadBlock\<close> hands to \<open>Decompress\<close> for block \<open>b\<close>, and the conditions under
  which it gets that far: the file can be opened, the seek (if any) is to a non-negative
  offset, and the two buffer lengths are not negative.
\<close>

definition readOffset :: "GPFile \<Rightarrow> nat \<Rightarrow> nat" where
  "readOffset f b =
     (if seekPosOf f b \<noteq> lastSeekPos f then unat (seekPosOf f b)
      else (case curFile f of Some off \<Rightarrow> off | None \<Rightarrow> 0))"

definition decompressCall :: "Encoder \<Rightarrow> byte list option \<Rightarrow> GPFile \<Rightarrow> nat \<Rightarrow> decompressResult" where
  "decompressCall enc fs f b =
     Decompress enc (unat (readLenOf f b)) (unat (lengths f ! b))
       (drop (readOffset f b) (case fs of None \<Rightarrow> [] | Some d \<Rightarrow> d))"

definition readable :: "byte list option \<Rightarrow> GPFile \<Rightarrow> nat \<Rightarrow> bool" where
  "readable fs f b \<longleftrightarrow> (curFile f \<noteq> None \<or> fs \<noteq> None) \<and>
     \<not> (seekPosOf f b \<noteq> lastSeekPos f \<and> seekPosOf f b <s 0) \<and>
     \<not> readLenOf f b <s 0 \<and> \<not> lengths f ! b <s 0"

text \<open>
  A second encoder with the same stored form, whose \<open>Decompress\<close> returns the number of
  bytes it decompressed. \<open>fileA\<close> is the file object after one write of three bytes to a
  fresh file with it; \<open>fileB\<close> declares five bytes for a block that holds three.
\<close>

definition sizeEncoder :: Encoder where
  "sizeEncoder =
     \<lparr>Compress = (\<lambda>data. \<lparr>written = 1 # data, nWrite = of_nat (length data + 1),
                              compressErr = False\<rparr>),
      Decompress = (\<lambda>inLen outLen src.
         \<lparr>uncompLen = of_nat (length (take outLen (drop 1 (take inLen src)))),
          decompressErr = (length (take inLen src) \<noteq> inLen),
          outBytes = take outLen (drop 1 (take inLen src)),
          consumed = inLen\<rparr>)\<rparr>"

definition fileA :: GPFile where
  "fileA = fst (snd (WriteTimedBlock sizeEncoder (Some (replicate (BufSize * 3) 0)) emptyFile 1 [7, 7, 7]))"

definition diskA :: "byte list option" where
  "diskA = snd (snd (WriteTimedBlock sizeEncoder (Some (replicate (BufSize * 3) 0)) emptyFile 1 [7, 7, 7]))"

definition fileB :: GPFile where
  "fileB = emptyFile\<lparr>blocks := (blocks emptyFile)[0 := of_nat (BufSize * 3) + 4],
                      timestamps := (timestamps emptyFile)[0 := 1],
                      lengths := (lengths emptyFile)[0 := 5]\<rparr>"

definition diskB :: "byte list option" where
  "diskB = Some (replicate (BufSize * 3) 0 @ [1, 7, 7, 7])"

text \<open>
  The header invariant of the data model: the used slots form a prefix (a slot with a
  zero timestamp is wholly zero and so are all slots after it), and no recorded offset
  is \<open>-1\<close>.
\<close>

definition wellFormed :: "GPFile \<Rightarrow> bool" where
  "wellFormed f \<longleftrightarrow> sized f \<and>
     (\<forall>i<NumElements. timestamps f ! i = 0 \<longrightarrow>
        blocks f ! i = 0 \<and> lengths f ! i = 0 \<and>
        (\<forall>j. i \<le> j \<and> j < NumElements \<longrightarrow> timestamps f ! j = 0)) \<and>
     (\<forall>i<NumElements. blocks f ! i \<noteq> - 1)"

text \<open>
  The file object with \<open>n\<close> used slots that \<open>n\<close> writes of one byte each, at timestamps
  \<open>1, ..., n\<close>, leave with the tag encoder; and a disk content for 511 such blocks.
\<close>

definition usedFile :: "nat \<Rightarrow> GPFile" where
  "usedFile n =
     \<lparr>blocks = map (\<lambda>i. of_nat (BufSize * 3 + 2 * (i + 1))) [0..<n] @ replicate (NumElements - n) 0,
      timestamps = map (\<lambda>i. of_nat (i + 1)) [0..<n] @ replicate (NumElements - n) 0,
      lengths = replicate n 1 @ replicate (NumElements - n) 0,
      curFile = Some (BufSize * 3), wBuf = replicate (BufSize * 3) 0, lastSeekPos = 0\<rparr>"

definition disk511 :: "byte list option" where
  "disk511 = Some (replicate (BufSize * 3) 0 @ concat (replicate 511 [1, 7]))"

subsection \<open>Writing a sequence of blocks and reading them back\<close>

text \<open>
  The contract of an encoder under which a round trip can be expected at all: \<open>Compress\<close>
  does not fail, returns the number of bytes it wrote, and writes fewer than \<open>2^53\<close>
  bytes for a payload of at most \<open>2^31\<close>; \<open>Decompress\<close>, given buffers of the compressed
  and of the original length and a reader that starts with the compressed bytes, leaves
  the original payload in \<open>out\<close> and returns the number of bytes it read. (That count is
  what \<open>ReadBlock\<close> compares with the block's compressed length.)
\<close>

definition compressed :: "Encoder \<Rightarrow> byte list \<Rightarrow> byte list" where
  "compressed enc p = written (Compress enc p)"

definition codec :: "Encoder \<Rightarrow> bool" where
  "codec enc \<longleftrightarrow>
     (\<forall>data rest.
        \<not> compressErr (Compress enc data) \<and>
        nWrite (Compress enc data) = of_nat (length (compressed enc data)) \<and>
        (length data \<le> 2 ^ 31 \<longrightarrow> length (compressed enc data) < 2 ^ 53) \<and>
        uncompLen (Decompress enc (length (compressed enc data)) (length data)
                     (compressed enc data @ rest)) = of_nat (length (compressed enc data)) \<and>
        outBytes (Decompress enc (length (compressed enc data)) (length data)
                     (compressed enc data @ rest)) = data)"

text \<open>The caller's loop: one \<open>WriteTimedBlock\<close> per (timestamp, payload), stopping at an error.\<close>

fun writeAll :: "Encoder \<Rightarrow> byte list option \<Rightarrow> GPFile \<Rightarrow> (int64 \<times> byte list) list \<Rightarrow>
    gpError option \<times> GPFile \<times> byte list option" where
  "writeAll enc fs f [] = (None, f, fs)"
| "writeAll enc fs f ((ts, p) # ws) =
     (case WriteTimedBlock enc fs f ts p of
        (None, f', fs') \<Rightarrow> writeAll enc fs' f' ws
      | (Some e, f', fs') \<Rightarrow> (Some e, f', fs'))"

text \<open>
  The state that writing the blocks \<open>ws\<close> to a fresh file leaves: the data region holds the
  compressed payloads one after the other, slot \<open>k\<close> holds the end offset of block \<open>k\<close>,
  its timestamp and its payload length, and the file starts with the serialised header.
\<close>

definition dataOf :: "Encoder \<Rightarrow> (int64 \<times> byte list) list \<Rightarrow> byte list" where
  "dataOf enc ws = concat (map (\<lambda>w. compressed enc (snd w)) ws)"

definition endOff :: "Encoder \<Rightarrow> (int64 \<times> byte list) list \<Rightarrow> nat \<Rightarrow> nat" where
  "endOff enc ws k = BufSize * 3 + length (dataOf enc (take k ws))"

definition written_inv :: "Encoder \<Rightarrow> (int64 \<times> byte list) list \<Rightarrow> GPFile \<Rightarrow> byte list option \<Rightarrow> bool" where
  "written_inv enc ws f fs \<longleftrightarrow>
     length ws \<le> NumElements \<and> sized f \<and>
     timestamps f = map fst ws @ replicate (NumElements - length ws) 0 \<and>
     lengths f = map (\<lambda>w. of_nat (length (snd w))) ws @ replicate (NumElements - length ws) 0 \<and>
     blocks f = map (\<lambda>k. of_nat (endOff enc ws (Suc k))) [0..<length ws] @
                replicate (NumElements - length ws) 0 \<and>
     (\<exists>hdr. headerOf f NumElements hdr \<and> fs = Some (hdr @ dataOf enc ws)) \<and>
     curFile f = Some (BufSize * 3) \<and> lastSeekPos f = 0"

definition payloadsOk :: "(int64 \<times> byte list) list \<Rightarrow> bool" where
  "payloadsOk ws \<longleftrightarrow> (\<forall>w\<in>set ws. length (snd w) \<le> 2 ^ 31)"

subsection \<open>Runs used to exercise the code\<close>

text \<open>
  \<open>Run\<close>: the loop \<open>for state := initializing; state != nil; { state = state(c) }\<close>, on
  the sequence of events that the selects of the states are offered, and with the outcome
  of \<open>NewRingBufSource\<close>. The loop ends when a state function returns nil (\<open>Exit\<close>); the
  events that are left are then never received.
\<close>

function RunFrom :: "CaptureStats option \<Rightarrow> stateFn \<Rightarrow> Capture \<Rightarrow> selectEvent list \<Rightarrow> Capture \<times> fsmResult" where
  "RunFrom src Initializing c evs =
     (case initializing c src of
        (c', Next s) \<Rightarrow> RunFrom src s c' evs
      | (c', r) \<Rightarrow> (c', r))"
| "RunFrom src Capturing c [] = (setState c StateCapturing, Blocked)"
| "RunFrom src Capturing c (ev # evs) =
     (case capturing c ev of
        (c', Next s) \<Rightarrow> RunFrom src s c' evs
      | (c', r) \<Rightarrow> (c', r))"
| "RunFrom src InError c evs =
     (case inError c evs of
        (c', Next s, rest) \<Rightarrow> RunFrom src s c' rest
      | (c', r, rest) \<Rightarrow> (c', r))"
| "RunFrom src Closing c evs = closing c"
  by pat_completeness auto
termination
proof -
  have cons: "inErrorLoop c evs = (c', Next s, rest) \<Longrightarrow> length rest < length evs"
    for c evs c' s rest
    by (induction c evs rule: inErrorLoop.induct) (auto split: prod.splits option.splits)
  show ?thesis
    apply (relation "measure (\<lambda>(src, s, c, evs). 2 * length evs + (if s = Initializing then 1 else 0))")
       apply simp
      apply (auto simp: initializing_def Let_def split: if_splits)[1]
     apply simp
    apply (auto simp: inError_def dest!: cons[OF sym])
    done
qed

declare RunFrom.simps [simp del]

definition Run :: "CaptureStats option \<Rightarrow> Capture \<Rightarrow> selectEvent list \<Rightarrow> Capture \<times> fsmResult" where
  "Run src c evs = (if closed c then (c, Exit) else RunFrom src Initializing c evs)"

text \<open>
  Two blocks written to a fresh file with the tag encoder; and a file whose header is
  empty while a block's bytes already follow it (the payload of a write whose header
  update was lost), with one block written to it.
\<close>

definition twoBlocks :: "gpError option \<times> GPFile \<times> byte list option" where
  "twoBlocks = writeAll tagEncoder (Some (replicate (BufSize * 3) 0)) emptyFile
                 [(1000, [1, 2, 3]), (2000, [4, 5, 6])]"

definition trailingDisk :: "byte list option" where
  "trailingDisk = Some (replicate (BufSize * 3) 0 @ [1, 9, 9, 9])"

definition trailingWrite :: "gpError option \<times> GPFile \<times> byte list option" where
  "trailingWrite = WriteTimedBlock tagEncoder trailingDisk emptyFile 1000 [1, 2, 3]"

section \<open>Properties of the status endpoint\<close>

text \<open>
  Claim C8. For every GET of the status endpoint, the HTTP response status code is 200
  when the returned statuses map is non-empty and 204 when it is empty.
\<close>

theorem getStatus_code:
  "fst (getStatus server ifname) =
     (if dom (Statuses (snd (getStatus server ifname))) = {} then 204 else 200)"
  by (simp add: getStatus_def Let_def StatusOK_def StatusNoContent_def)

theorem getStatus_code_witness:
  "fst (getStatus \<lparr>LastRotation = 0, captureManagerStatus = (\<lambda>_. Map.empty :: string \<rightharpoonup> unit)\<rparr> []) = 204 \<and>
   fst (getStatus \<lparr>LastRotation = 0, captureManagerStatus = (\<lambda>_. [''eth0'' \<mapsto> ()])\<rparr> ''eth0'') = 200"
  using getStatus_code [of "\<lparr>LastRotation = 0, captureManagerStatus = (\<lambda>_. Map.empty :: string \<rightharpoonup> unit)\<rparr>" "[]"]
    getStatus_code [of "\<lparr>LastRotation = 0, captureManagerStatus = (\<lambda>_. [''eth0'' \<mapsto> ()])\<rparr>" "''eth0''"]
  by (simp add: getStatus_def Let_def)

section \<open>Properties of the classifier\<close>

lemma portValue_uint16ToPort: "portValue (uint16ToPort p) = p"
  unfolding portValue_def uint16ToPort_def
  apply simp
  apply (rule bit_word_eqI)
  apply (auto simp: bit_simps)
  done

lemma copy_at_length: "length (copy_at res off src) = length res"
  by (simp add: copy_at_def)

lemma genTestPacket_fields:
  assumes "length (parse (sip p)) \<le> 16" "length (parse (dip p)) \<le> 16"
  shows "portValue (pkt_sport (genTestPacket parse p)) = sport p"
    "portValue (pkt_dport (genTestPacket parse p)) = dport p"
    "pkt_proto (genTestPacket parse p) = proto p"
    "auxInfo (genTestPacket parse p) = tp_auxInfo p"
  using assms portValue_uint16ToPort[of "sport p"] portValue_uint16ToPort[of "dport p"]
  by (simp_all add: genTestPacket_def genEPHash_def Let_def pkt_sport_def pkt_dport_def pkt_proto_def
      PutUint16_def copy_at_length uint16ToPort_def portValue_def)

lemmas rule_defs = ruleICMP_def ruleCommonPort_def ruleDHCP_def ruleZeroPort_def rulePrivileged_def
  rulePortOrder_def isCommonPort_def isWellKnownPort_def isPrivilegedPort_def

lemma tc_fields:
  assumes "\<forall>s. length (parse s) \<le> 16"
  shows "portValue (pkt_sport (genTestPacket parse (tc s d sp dp pr aux dir))) = sp"
    "portValue (pkt_dport (genTestPacket parse (tc s d sp dp pr aux dir))) = dp"
    "pkt_proto (genTestPacket parse (tc s d sp dp pr aux dir)) = pr"
    "auxInfo (genTestPacket parse (tc s d sp dp pr aux dir)) = aux"
    "expectedDirection (tc s d sp dp pr aux dir) = dir"
  using assms genTestPacket_fields[of parse "tc s d sp dp pr aux dir"] by (simp_all add: tc_def)

text \<open>
  The modelled classifier passes \<open>TestClassification\<close>: on each of the 26 rows of the
  source's test table it returns the expected direction, whatever the addresses parse to.
\<close>

lemma classify_testCases:
  assumes "\<forall>s. length (parse s) \<le> 16"
  shows "list_all (\<lambda>p. ClassifyPacketDirection (genTestPacket parse p) = expectedDirection p) testCases"
  unfolding testCases_def list.pred_inject
  by (simp add: tc_fields[OF assms] ClassifyPacketDirection_def classify_def rule_defs Let_def
      ICMP_def TCP_def UDP_def ICMPv6_def)

text \<open>
  Claim C6. For every 16-bit port \<open>p\<close> and L4 protocol, the classifier's common-port
  predicate holds exactly when the protocol is TCP and \<open>p\<close> is 53, 80 or 443, or the
  protocol is UDP and \<open>p\<close> is 53 or 443; for all other pairs it is false. The port is
  passed as \<open>TestPortMergeLogic\<close> passes it, through \<open>uint16ToPort\<close>.
\<close>

theorem isCommonPort_spec:
  "isCommonPort (uint16ToPort p) pr \<longleftrightarrow>
     (pr = TCP \<and> p \<in> {53, 80, 443}) \<or> (pr = UDP \<and> p \<in> {53, 443})"
  by (simp add: isCommonPort_def portValue_uint16ToPort Let_def)

theorem isCommonPort_spec_witness:
  "isCommonPort (uint16ToPort 80) TCP \<and> \<not> isCommonPort (uint16ToPort 80) UDP \<and>
   \<not> isCommonPort (uint16ToPort 65535) TCP \<and> \<not> isCommonPort (uint16ToPort 53) ICMP"
  using isCommonPort_spec [of 80 TCP] isCommonPort_spec [of 80 UDP]
    isCommonPort_spec [of 65535 TCP] isCommonPort_spec [of 53 ICMP]
  by (simp add: TCP_def UDP_def ICMP_def)

text \<open>
  Claim C7. For every TCP or UDP packet to which none of the earlier direction rules
  (ICMP, common port, DHCP, zeroed port, privileged port) applies: if the source port is
  above the destination port the classifier returns \<open>DirectionRemains\<close>, if it is below
  it returns \<open>DirectionReverts\<close>, if they are equal it returns \<open>DirectionRemains\<close>;
  in all three cases \<open>directionConfidenceHigh\<close> is false.
\<close>

theorem port_order_rule:
  assumes "pkt_proto pkt = TCP \<or> pkt_proto pkt = UDP"
    and "ruleICMP pkt = None" and "ruleCommonPort pkt = None" and "ruleDHCP pkt = None"
    and "ruleZeroPort pkt = None" and "rulePrivileged pkt = None"
  shows "(portValue (pkt_sport pkt) > portValue (pkt_dport pkt) \<longrightarrow>
            ClassifyPacketDirection pkt = DirectionRemains) \<and>
         (portValue (pkt_sport pkt) < portValue (pkt_dport pkt) \<longrightarrow>
            ClassifyPacketDirection pkt = DirectionReverts) \<and>
         (portValue (pkt_sport pkt) = portValue (pkt_dport pkt) \<longrightarrow>
            ClassifyPacketDirection pkt = DirectionRemains) \<and>
         \<not> directionConfidenceHigh pkt"
proof -
  have asym: "portValue (pkt_dport pkt) < portValue (pkt_sport pkt) \<longrightarrow>
        \<not> portValue (pkt_sport pkt) < portValue (pkt_dport pkt)"
    by (simp add: not_less less_imp_le)
  show ?thesis
    using assms(2-6) asym
    by (simp add: ClassifyPacketDirection_def directionConfidenceHigh_def classify_def
        rulePortOrder_def Let_def)
qed

lemma pktA_fields:
  "pkt_proto pktA = UDP" "portValue (pkt_sport pktA) = 33560" "portValue (pkt_dport pktA) = 33561"
  by (simp_all add: pktA_def pkt_proto_def pkt_sport_def pkt_dport_def portValue_def UDP_def nth_append)

theorem port_order_rule_witness:
  "(pkt_proto pktA = TCP \<or> pkt_proto pktA = UDP) \<and> ruleICMP pktA = None \<and>
   ruleCommonPort pktA = None \<and> ruleDHCP pktA = None \<and> ruleZeroPort pktA = None \<and>
   rulePrivileged pktA = None \<and>
   portValue (pkt_sport pktA) < portValue (pkt_dport pktA) \<and>
   ClassifyPacketDirection pktA = DirectionReverts \<and> \<not> directionConfidenceHigh pktA"
proof -
  have h: "pkt_proto pktA = TCP \<or> pkt_proto pktA = UDP" "ruleICMP pktA = None"
    "ruleCommonPort pktA = None" "ruleDHCP pktA = None" "ruleZeroPort pktA = None"
    "rulePrivileged pktA = None"
    by (simp_all add: rule_defs pktA_fields Let_def ICMP_def TCP_def UDP_def ICMPv6_def)
  have lt: "portValue (pkt_sport pktA) < portValue (pkt_dport pktA)"
    by (simp add: pktA_fields)
  from port_order_rule[OF h] lt h show ?thesis by simp
qed


section \<open>Properties of the capture\<close>

lemma ex_drop_Cons: "(\<exists>i. P (drop i (x # xs))) \<longleftrightarrow> P (x # xs) \<or> (\<exists>i. P (drop i xs))"
proof
  assume "\<exists>i. P (drop i (x # xs))"
  then obtain i where i: "P (drop i (x # xs))" ..
  show "P (x # xs) \<or> (\<exists>i. P (drop i xs))"
  proof (cases i)
    case 0 with i show ?thesis by simp
  next
    case (Suc j) with i have "P (drop j xs)" by simp
    then show ?thesis by blast
  qed
next
  assume "P (x # xs) \<or> (\<exists>i. P (drop i xs))"
  then show "\<exists>i. P (drop i (x # xs))"
  proof
    assume "P (x # xs)" then have "P (drop 0 (x # xs))" by simp
    then show ?thesis by blast
  next
    assume "\<exists>i. P (drop i xs)"
    then obtain i where "P (drop i xs)" ..
    then have "P (drop (Suc i) (x # xs))" by simp
    then show ?thesis by blast
  qed
qed

lemma failureRunExceeds_Nil: "0 \<le> n \<Longrightarrow> \<not> failureRunExceeds n []"
  by (simp add: failureRunExceeds_def leadingFailures_def)

lemma failureRunExceeds_Cons:
  "failureRunExceeds n (ev # evs) \<longleftrightarrow>
     (if isDecodeEvent ev
      then n < int (leadingFailures (ev # takeWhile isDecodeEvent evs)) \<or> failureRunExceeds n evs
      else n < 0)"
proof (cases "isDecodeEvent ev")
  case True
  then show ?thesis
    using ex_drop_Cons[of "\<lambda>l. n < int (leadingFailures l)" ev "takeWhile isDecodeEvent evs"]
    by (simp add: failureRunExceeds_def)
next
  case False
  then show ?thesis by (simp add: failureRunExceeds_def leadingFailures_def)
qed

lemma lead_takeWhile: "leadingFailures (takeWhile isDecodeEvent evs) = leadingFailures evs"
proof (induction evs)
  case Nil show ?case by simp
next
  case (Cons ev evs) then show ?case by (cases ev) (simp_all add: leadingFailures_def)
qed

lemma processLoop_fatal:
  "0 \<le> k \<Longrightarrow> k \<le> ErrorThreshold \<Longrightarrow>
   fst (processLoop evs k c) = SentError TooManyDecodeErrors \<longleftrightarrow>
     ErrorThreshold < k + int (leadingFailures evs) \<or> failureRunExceeds ErrorThreshold evs"
proof (induction evs arbitrary: k c)
  case Nil
  then show ?case by (simp add: failureRunExceeds_Nil leadingFailures_def ErrorThreshold_def)
next
  case (Cons ev evs)
  have T: "0 \<le> ErrorThreshold" by (simp add: ErrorThreshold_def)
  show ?case
  proof (cases ev)
    case (NextPacketError stopped)
    then show ?thesis using Cons.prems T
      by (simp add: failureRunExceeds_Cons leadingFailures_def)
  next
    case (Decoded p)
    have "fst (processLoop (ev # evs) k c) = SentError TooManyDecodeErrors \<longleftrightarrow>
      ErrorThreshold < 0 + int (leadingFailures evs) \<or> failureRunExceeds ErrorThreshold evs"
      using Decoded Cons.IH[of 0] T by simp
    moreover have "ErrorThreshold < int (leadingFailures evs) \<Longrightarrow> failureRunExceeds ErrorThreshold evs"
      unfolding failureRunExceeds_def using lead_takeWhile[of evs]
      by (metis drop0)
    ultimately show ?thesis using Decoded Cons.prems
      by (auto simp: failureRunExceeds_Cons leadingFailures_def)
  next
    case (DecodeFailed msg)
    have L: "leadingFailures (ev # evs) = Suc (leadingFailures evs)"
      "leadingFailures (ev # takeWhile isDecodeEvent evs) = Suc (leadingFailures evs)"
      using DecodeFailed lead_takeWhile[of evs] by (simp_all add: leadingFailures_def)
    show ?thesis
    proof (cases "k + 1 > ErrorThreshold")
      case True
      then show ?thesis using DecodeFailed L by (simp add: Let_def)
    next
      case False
      then have "fst (processLoop (ev # evs) k c) = SentError TooManyDecodeErrors \<longleftrightarrow>
        ErrorThreshold < (k + 1) + int (leadingFailures evs) \<or> failureRunExceeds ErrorThreshold evs"
        using DecodeFailed Cons.IH[of "k + 1"] Cons.prems by (simp add: Let_def)
      then show ?thesis using DecodeFailed L Cons.prems
        by (auto simp: failureRunExceeds_Cons)
    qed
  qed
qed

lemma processLoop_decode_only:
  "\<forall>ev\<in>set evs. isDecodeEvent ev \<Longrightarrow>
   fst (processLoop evs k c) = AwaitingPacket \<or> fst (processLoop evs k c) = SentError TooManyDecodeErrors"
proof (induction evs arbitrary: k c)
  case Nil show ?case by simp
next
  case (Cons ev evs)
  then show ?case by (cases ev) (simp_all add: Let_def)
qed

lemma processLoop_reset:
  "fst (processLoop (evs @ [Decoded p]) k c) = AwaitingPacket \<Longrightarrow>
   fst (snd (processLoop (evs @ [Decoded p]) k c)) = 0"
proof (induction evs arbitrary: k c)
  case Nil show ?case by simp
next
  case (Cons ev evs)
  then show ?case by (cases ev) (simp_all add: Let_def split: if_splits)
qed

text \<open>
  The packet-processing task and the error case of \<open>capturing\<close>, each on its own:
  \<open>process\<close> puts the threshold error on the error channel exactly when more than 10,000
  failed decodes follow one another; a successful decode resets the counter; and
  \<open>capturing\<close>, if its select receives an error, moves to \<open>inError\<close>, which sets
  \<open>StateError\<close>.
\<close>

theorem decode_error_threshold:
  "(fst (process c evs) = SentError TooManyDecodeErrors \<longleftrightarrow> failureRunExceeds ErrorThreshold evs) \<and>
   ((\<forall>ev\<in>set evs. isDecodeEvent ev) \<and> \<not> failureRunExceeds ErrorThreshold evs \<longrightarrow>
      fst (process c evs) = AwaitingPacket) \<and>
   (fst (process c (evs @ [Decoded p])) = AwaitingPacket \<longrightarrow>
      fst (snd (process c (evs @ [Decoded p]))) = 0) \<and>
   snd (capturing c (RecvErr err)) = Next InError \<and>
   state (fst (inError (fst (capturing c (RecvErr err))) [])) = StateError"
proof -
  have a: "fst (process c evs) = SentError TooManyDecodeErrors \<longleftrightarrow> failureRunExceeds ErrorThreshold evs"
  proof -
    have "ErrorThreshold < int (leadingFailures evs) \<Longrightarrow> failureRunExceeds ErrorThreshold evs"
      unfolding failureRunExceeds_def using lead_takeWhile[of evs] by (metis drop0)
    then show ?thesis
      using processLoop_fatal[of 0 evs c] by (auto simp: process_def ErrorThreshold_def)
  qed
  have b: "(\<forall>ev\<in>set evs. isDecodeEvent ev) \<and> \<not> failureRunExceeds ErrorThreshold evs \<longrightarrow>
      fst (process c evs) = AwaitingPacket"
    using a processLoop_decode_only[of evs 0 c] by (auto simp: process_def)
  have c: "fst (process c (evs @ [Decoded p])) = AwaitingPacket \<longrightarrow>
      fst (snd (process c (evs @ [Decoded p]))) = 0"
    using processLoop_reset[of evs p 0 c] by (simp add: process_def)
  have d: "snd (capturing c (RecvErr err)) = Next InError"
    by (simp add: capturing_def Let_def)
  have e: "state (fst (inError (fst (capturing c (RecvErr err))) [])) = StateError"
    by (simp add: inError_def setState_def)
  from a b c d e show ?thesis by blast
qed

lemma lead_badFeed: "leadingFailures (drop i (takeWhile isDecodeEvent (badFeed n))) = n - i"
  by (simp add: badFeed_def leadingFailures_def)

theorem decode_error_threshold_witness:
  "fst (process (NewCapture ''eth0'' \<lparr>Promisc = False, BufferSize = 0\<rparr>) (badFeed 10001)) =
     SentError TooManyDecodeErrors \<and>
   fst (process (NewCapture ''eth0'' \<lparr>Promisc = False, BufferSize = 0\<rparr>) (badFeed 10000)) =
     AwaitingPacket \<and>
   fst (process (NewCapture ''eth0'' \<lparr>Promisc = False, BufferSize = 0\<rparr>) ([] @ [Decoded pktA])) =
     AwaitingPacket \<and>
   fst (snd (process (NewCapture ''eth0'' \<lparr>Promisc = False, BufferSize = 0\<rparr>) ([] @ [Decoded pktA]))) = 0"
proof -
  let ?c = "NewCapture ''eth0'' \<lparr>Promisc = False, BufferSize = 0\<rparr>"
  have yes: "failureRunExceeds ErrorThreshold (badFeed 10001)"
    unfolding failureRunExceeds_def lead_badFeed by (rule exI[of _ 0]) (simp add: ErrorThreshold_def)
  have no: "\<not> failureRunExceeds ErrorThreshold (badFeed 10000)"
    unfolding failureRunExceeds_def lead_badFeed by (auto simp: ErrorThreshold_def)
  have dec: "\<forall>ev\<in>set (badFeed 10000). isDecodeEvent ev"
    by (simp add: badFeed_def)
  have one: "fst (process ?c ([] @ [Decoded pktA])) = AwaitingPacket"
    by (simp add: process_def)
  show ?thesis
    using decode_error_threshold[of ?c "badFeed 10001"]
      decode_error_threshold[of ?c "badFeed 10000"]
      decode_error_threshold[of ?c "[]" pktA] yes no dec one
    by blast
qed

text \<open>
  Claim C9. For every capture whose closed flag is set, \<open>Status\<close>, \<open>Errors\<close>, \<open>Flows\<close>
  and \<open>Update\<close> return at once with a zero-value result and send no command on
  \<open>cmdChan\<close>; \<open>Rotate\<close> has no such check and always sends its command on \<open>cmdChan\<close>,
  which the closing state has closed (so that the send panics).
\<close>

theorem closed_capture_methods:
  "(closed c \<longrightarrow>
      Status c = Return zeroStatus \<and> Errors c = Return None \<and> Flows c = Return None \<and>
      Update c cfg = Return ()) \<and>
   Rotate c = SendCmd captureCommandRotate \<and>
   closed (fst (closing c)) \<and> cmdChanClosed (fst (closing c)) \<and>
   chanSend (fst (closing c)) = SendPanics"
  by (simp add: Status_def Errors_def Flows_def Update_def Rotate_def closing_def chanSend_def
      Let_def reset_def setState_def)

theorem closed_capture_methods_witness:
  "closed (fst (closing (NewCapture ''eth0'' \<lparr>Promisc = False, BufferSize = 0\<rparr>))) \<and>
   Status (fst (closing (NewCapture ''eth0'' \<lparr>Promisc = False, BufferSize = 0\<rparr>))) = Return zeroStatus \<and>
   Errors (fst (closing (NewCapture ''eth0'' \<lparr>Promisc = False, BufferSize = 0\<rparr>))) = Return None \<and>
   Flows (fst (closing (NewCapture ''eth0'' \<lparr>Promisc = False, BufferSize = 0\<rparr>))) = Return None \<and>
   Update (fst (closing (NewCapture ''eth0'' \<lparr>Promisc = False, BufferSize = 0\<rparr>)))
      \<lparr>Promisc = True, BufferSize = 1\<rparr> = Return () \<and>
   Rotate (fst (closing (NewCapture ''eth0'' \<lparr>Promisc = False, BufferSize = 0\<rparr>))) =
      SendCmd captureCommandRotate \<and>
   chanSend (fst (closing (NewCapture ''eth0'' \<lparr>Promisc = False, BufferSize = 0\<rparr>))) = SendPanics"
proof -
  let ?c0 = "NewCapture ''eth0'' \<lparr>Promisc = False, BufferSize = 0\<rparr>"
  have cl: "closed (fst (closing ?c0))"
    by (simp add: closing_def Let_def reset_def setState_def NewCapture_def)
  have cl2: "fst (closing (fst (closing ?c0))) = fst (closing ?c0)"
    by (simp add: closing_def Let_def reset_def setState_def NewCapture_def)
  show ?thesis
    using closed_capture_methods[of "fst (closing ?c0)" "\<lparr>Promisc = True, BufferSize = 1\<rparr>"] cl
    by (simp add: cl2)
qed


section \<open>Properties of the block file\<close>

lemma bit_chunk: "k \<le> 56 \<Longrightarrow> bit (chunk k v) n \<longleftrightarrow> k \<le> n \<and> n < k + 8 \<and> bit v n"
  unfolding chunk_def
  by (auto simp: bit_simps bit_signed_drop_bit_iff dest: bit_imp_le_length)

lemma or_chunks:
  "chunk 56 v OR chunk 48 v OR chunk 40 v OR chunk 32 v OR chunk 24 v OR chunk 16 v OR chunk 8 v OR chunk 0 v = v"
proof (rule bit_word_eqI)
  fix n assume n: "n < LENGTH(64)"
  then have "n < 64" by simp
  then have c: "n < 8 \<or> (8 \<le> n \<and> n < 16) \<or> (16 \<le> n \<and> n < 24) \<or> (24 \<le> n \<and> n < 32) \<or>
     (32 \<le> n \<and> n < 40) \<or> (40 \<le> n \<and> n < 48) \<or> (48 \<le> n \<and> n < 56) \<or> (56 \<le> n \<and> n < 64)"
    by arith
  show "bit (chunk 56 v OR chunk 48 v OR chunk 40 v OR chunk 32 v OR chunk 24 v OR chunk 16 v OR chunk 8 v OR chunk 0 v) n = bit v n"
    using c by (simp add: bit_or_iff bit_chunk) arith
qed

lemma getInt64_byteOf:
  assumes "\<And>j. j < 8 \<Longrightarrow> buf ! (pos + j) = byteOf v j"
  shows "getInt64 buf pos = v"
proof -
  have b: "buf ! pos = byteOf v 0" "buf ! (pos + 1) = byteOf v 1" "buf ! (pos + 2) = byteOf v 2"
    "buf ! (pos + 3) = byteOf v 3" "buf ! (pos + 4) = byteOf v 4" "buf ! (pos + 5) = byteOf v 5"
    "buf ! (pos + 6) = byteOf v 6" "buf ! (pos + 7) = byteOf v 7"
    using assms[of 0] assms[of 1] assms[of 2] assms[of 3] assms[of 4] assms[of 5] assms[of 6] assms[of 7]
    by simp_all
  have "getInt64 buf pos = chunk 56 v OR chunk 48 v OR chunk 40 v OR chunk 32 v OR chunk 24 v OR chunk 16 v OR chunk 8 v OR chunk 0 v"
    unfolding getInt64_def b byteOf_def chunk_def by simp
  then show ?thesis by (simp only: or_chunks)
qed

lemma bit_part:
  "bit (push_bit k (ucast (b::byte)) :: int64) n \<longleftrightarrow> k \<le> n \<and> n < 64 \<and> n < k + 8 \<and> bit b (n - k)"
  by (auto simp: bit_simps dest: bit_imp_le_length)

lemma bit_part0:
  "bit (ucast (b::byte) :: int64) n \<longleftrightarrow> n < 8 \<and> bit b n"
  by (auto simp: bit_simps dest: bit_imp_le_length)

lemma bit_byteOf:
  "j < 8 \<Longrightarrow> bit (byteOf v j) m \<longleftrightarrow> m < 8 \<and> bit v (56 - j * 8 + m)"
  unfolding byteOf_def
  by (auto simp: bit_simps bit_signed_drop_bit_iff dest: bit_imp_le_length)

lemma byteOf_getInt64:
  assumes "j < 8"
  shows "byteOf (getInt64 buf pos) j = buf ! (pos + j)"
proof (rule bit_word_eqI)
  fix m assume "m < LENGTH(8)"
  then have m: "m < 8" by simp
  from assms consider "j = 0" | "j = 1" | "j = 2" | "j = 3" | "j = 4" | "j = 5" | "j = 6" | "j = 7"
    by arith
  then show "bit (byteOf (getInt64 buf pos) j) m = bit (buf ! (pos + j)) m"
    using m by cases (simp_all add: bit_byteOf getInt64_def bit_or_iff bit_part bit_part0)
qed

lemma fold3_nth:
  assumes "pos + n \<le> B" and "B + B + pos + n \<le> length w"
  shows "length (fold (\<lambda>j w. w[pos + j := g j, B + pos + j := h j, B + B + pos + j := u j]) [0..<n] w) = length w \<and>
    (\<forall>k. (fold (\<lambda>j w. w[pos + j := g j, B + pos + j := h j, B + B + pos + j := u j]) [0..<n] w) ! k =
      (if pos \<le> k \<and> k < pos + n then g (k - pos)
       else if B + pos \<le> k \<and> k < B + pos + n then h (k - (B + pos))
       else if B + B + pos \<le> k \<and> k < B + B + pos + n then u (k - (B + B + pos))
       else w ! k))"
  using assms
proof (induction n)
  case 0
  then show ?case by auto
next
  case (Suc n)
  let ?F = "fold (\<lambda>j w. w[pos + j := g j, B + pos + j := h j, B + B + pos + j := u j]) [0..<n] w"
  from Suc have IH: "length ?F = length w"
    "\<And>k. ?F ! k = (if pos \<le> k \<and> k < pos + n then g (k - pos)
       else if B + pos \<le> k \<and> k < B + pos + n then h (k - (B + pos))
       else if B + B + pos \<le> k \<and> k < B + B + pos + n then u (k - (B + B + pos))
       else w ! k)"
    by simp_all
  have len: "pos + n < length w" "B + pos + n < length w" "B + B + pos + n < length w"
    using Suc.prems by simp_all
  show ?case
  proof (intro conjI allI)
    show "length (fold (\<lambda>j w. w[pos + j := g j, B + pos + j := h j, B + B + pos + j := u j]) [0..<Suc n] w) = length w"
      by (simp add: IH)
  next
    fix k
    show "(fold (\<lambda>j w. w[pos + j := g j, B + pos + j := h j, B + B + pos + j := u j]) [0..<Suc n] w) ! k =
      (if pos \<le> k \<and> k < pos + Suc n then g (k - pos)
       else if B + pos \<le> k \<and> k < B + pos + Suc n then h (k - (B + pos))
       else if B + B + pos \<le> k \<and> k < B + B + pos + Suc n then u (k - (B + B + pos))
       else w ! k)"
      using Suc.prems len
      by (auto simp: IH nth_list_update)
  qed
qed

lemma putSlot_nth:
  assumes "pos + 8 \<le> BufSize" and "length w = BufSize * 3"
  shows "length (putSlot f i pos w) = length w"
    and "putSlot f i pos w ! k =
      (if pos \<le> k \<and> k < pos + 8 then byteOf (blocks f ! i) (k - pos)
       else if BufSize + pos \<le> k \<and> k < BufSize + pos + 8 then byteOf (timestamps f ! i) (k - (BufSize + pos))
       else if BufSize + BufSize + pos \<le> k \<and> k < BufSize + BufSize + pos + 8
         then byteOf (lengths f ! i) (k - (BufSize + BufSize + pos))
       else w ! k)"
proof -
  have a: "pos + 8 \<le> BufSize" "BufSize + BufSize + pos + 8 \<le> length w"
    using assms by simp_all
  show "length (putSlot f i pos w) = length w"
    unfolding putSlot_def using fold3_nth[OF a] by blast
  show "putSlot f i pos w ! k =
      (if pos \<le> k \<and> k < pos + 8 then byteOf (blocks f ! i) (k - pos)
       else if BufSize + pos \<le> k \<and> k < BufSize + pos + 8 then byteOf (timestamps f ! i) (k - (BufSize + pos))
       else if BufSize + BufSize + pos \<le> k \<and> k < BufSize + BufSize + pos + 8
         then byteOf (lengths f ! i) (k - (BufSize + BufSize + pos))
       else w ! k)"
    unfolding putSlot_def using fold3_nth[OF a] by blast
qed

lemma putHeader_fold:
  assumes "length w = BufSize * 3" and "n \<le> NumElements"
  shows "fst (fold (\<lambda>i (pos, w). (pos + 8, putSlot f i pos w)) [0..<n] (0, w)) = 8 * n \<and>
     headerOf f n (snd (fold (\<lambda>i (pos, w). (pos + 8, putSlot f i pos w)) [0..<n] (0, w)))"
  using assms(2)
proof (induction n)
  case 0
  then show ?case using assms(1) by (simp add: headerOf_def)
next
  case (Suc n)
  let ?S = "fold (\<lambda>i (pos, w). (pos + 8, putSlot f i pos w)) [0..<n] (0, w)"
  obtain p w' where S: "?S = (p, w')" by (cases ?S)
  from Suc S have p: "p = 8 * n" and h: "headerOf f n w'" by simp_all
  have bound: "8 * n + 8 \<le> BufSize" using Suc.prems by (simp add: NumElements_def BufSize_def)
  have len: "length w' = BufSize * 3" using h by (simp add: headerOf_def)
  have step: "fold (\<lambda>i (pos, w). (pos + 8, putSlot f i pos w)) [0..<Suc n] (0, w) = (8 * n + 8, putSlot f n (8 * n) w')"
    using S p by simp
  have "headerOf f (Suc n) (putSlot f n (8 * n) w')"
    unfolding headerOf_def
  proof (intro conjI allI impI)
    show "length (putSlot f n (8 * n) w') = BufSize * 3"
      using putSlot_nth(1)[OF bound len] len by simp
  next
    fix i j assume ij: "i < Suc n" "j < (8::nat)"
    show "putSlot f n (8 * n) w' ! (8 * i + j) = byteOf (blocks f ! i) j"
    proof (cases "i = n")
      case True then show ?thesis using ij bound by (simp add: putSlot_nth(2)[OF bound len])
    next
      case False
      then have "i < n" using ij by simp
      then have "8 * i + j < 8 * n" using ij by arith
      moreover have "w' ! (8 * i + j) = byteOf (blocks f ! i) j"
        using h \<open>i < n\<close> ij by (simp add: headerOf_def)
      ultimately show ?thesis using bound by (simp add: putSlot_nth(2)[OF bound len])
    qed
  next
    fix i j assume ij: "i < Suc n" "j < (8::nat)"
    show "putSlot f n (8 * n) w' ! (BufSize + 8 * i + j) = byteOf (timestamps f ! i) j"
    proof (cases "i = n")
      case True then show ?thesis using ij bound by (simp add: putSlot_nth(2)[OF bound len])
    next
      case False
      then have "i < n" using ij by simp
      then have "8 * i + j < 8 * n" using ij by arith
      moreover have "w' ! (BufSize + 8 * i + j) = byteOf (timestamps f ! i) j"
        using h \<open>i < n\<close> ij by (simp add: headerOf_def)
      ultimately show ?thesis using bound by (simp add: putSlot_nth(2)[OF bound len])
    qed
  next
    fix i j assume ij: "i < Suc n" "j < (8::nat)"
    show "putSlot f n (8 * n) w' ! (BufSize + BufSize + 8 * i + j) = byteOf (lengths f ! i) j"
    proof (cases "i = n")
      case True then show ?thesis using ij bound by (simp add: putSlot_nth(2)[OF bound len])
    next
      case False
      then have "i < n" using ij by simp
      then have "8 * i + j < 8 * n" using ij by arith
      moreover have "w' ! (BufSize + BufSize + 8 * i + j) = byteOf (lengths f ! i) j"
        using h \<open>i < n\<close> ij by (simp add: headerOf_def)
      ultimately show ?thesis using bound by (simp add: putSlot_nth(2)[OF bound len])
    qed
  qed
  then show ?case using step by simp
qed

lemma putHeader_headerOf:
  "length (wBuf f) = BufSize * 3 \<Longrightarrow> headerOf f NumElements (snd (putHeader f))"
  unfolding putHeader_def using putHeader_fold[of "wBuf f" NumElements f] by simp

lemma parse_fold:
  assumes "length h0 = NumElements" "length t0 = NumElements" "length l0 = NumElements"
    and "n \<le> NumElements"
  shows "\<exists>h t l. fold (\<lambda>i (pos, h, ts, le).
             (pos + 8, h[i := getInt64 bufH pos], ts[i := getInt64 bufTS pos],
              le[i := getInt64 bufLen pos])) [0..<n] (0, h0, t0, l0) = (8 * n, h, t, l) \<and>
     length h = NumElements \<and> length t = NumElements \<and> length l = NumElements \<and>
     (\<forall>i<n. h ! i = getInt64 bufH (8 * i) \<and> t ! i = getInt64 bufTS (8 * i) \<and>
              l ! i = getInt64 bufLen (8 * i))"
  using assms(4)
proof (induction n)
  case 0
  then show ?case using assms(1-3) by simp
next
  case (Suc n)
  then obtain h t l where S: "fold (\<lambda>i (pos, h, ts, le).
             (pos + 8, h[i := getInt64 bufH pos], ts[i := getInt64 bufTS pos],
              le[i := getInt64 bufLen pos])) [0..<n] (0, h0, t0, l0) = (8 * n, h, t, l)"
    and len: "length h = NumElements" "length t = NumElements" "length l = NumElements"
    and v: "\<forall>i<n. h ! i = getInt64 bufH (8 * i) \<and> t ! i = getInt64 bufTS (8 * i) \<and>
              l ! i = getInt64 bufLen (8 * i)"
    by auto
  have n: "n < NumElements" using Suc.prems by simp
  show ?case
    apply (rule exI[of _ "h[n := getInt64 bufH (8 * n)]"])
    apply (rule exI[of _ "t[n := getInt64 bufTS (8 * n)]"])
    apply (rule exI[of _ "l[n := getInt64 bufLen (8 * n)]"])
    using S len v n by (auto simp: nth_list_update less_Suc_eq)
qed

lemma parseHeader_eq:
  "\<exists>h t l. parseHeader bufH bufTS bufLen = (8 * NumElements, h, t, l) \<and>
     h = map (\<lambda>i. getInt64 bufH (8 * i)) [0..<NumElements] \<and>
     t = map (\<lambda>i. getInt64 bufTS (8 * i)) [0..<NumElements] \<and>
     l = map (\<lambda>i. getInt64 bufLen (8 * i)) [0..<NumElements]"
proof -
  obtain h t l where P: "parseHeader bufH bufTS bufLen = (8 * NumElements, h, t, l)"
    and len: "length h = NumElements" "length t = NumElements" "length l = NumElements"
    and v: "\<forall>i<NumElements. h ! i = getInt64 bufH (8 * i) \<and> t ! i = getInt64 bufTS (8 * i) \<and>
              l ! i = getInt64 bufLen (8 * i)"
    unfolding parseHeader_def
    using parse_fold[of "replicate NumElements 0" "replicate NumElements 0" "replicate NumElements 0"
        NumElements bufH bufTS bufLen]
    by auto
  have "h = map (\<lambda>i. getInt64 bufH (8 * i)) [0..<NumElements]"
    using len v by (intro nth_equalityI) simp_all
  moreover have "t = map (\<lambda>i. getInt64 bufTS (8 * i)) [0..<NumElements]"
    using len v by (intro nth_equalityI) simp_all
  moreover have "l = map (\<lambda>i. getInt64 bufLen (8 * i)) [0..<NumElements]"
    using len v by (intro nth_equalityI) simp_all
  ultimately show ?thesis using P by simp
qed

lemma NewGPFile_reopen:
  assumes sz: "length (blocks f) = NumElements" "length (timestamps f) = NumElements"
      "length (lengths f) = NumElements"
    and hd: "headerOf f NumElements w"
  shows "NewGPFile (Some (w @ rest)) =
     (Inr \<lparr>blocks = blocks f, timestamps = timestamps f, lengths = lengths f,
           curFile = Some (BufSize * 3), wBuf = replicate (BufSize * 3) 0, lastSeekPos = 0\<rparr>,
      Some (w @ rest))"
proof -
  let ?d = "w @ rest"
  have lw: "length w = BufSize * 3" using hd by (simp add: headerOf_def)
  have B: "0 < BufSize" by (simp add: BufSize_def)
  let ?bH = "take BufSize ?d" and ?bTS = "take BufSize (drop BufSize ?d)"
    and ?bLen = "take BufSize (drop (BufSize + BufSize) ?d)"
  have l3: "length ?bH = BufSize" "length ?bTS = BufSize" "length ?bLen = BufSize"
    using lw by (simp_all add: BufSize_def)
  have r1: "fileRead ?d 0 BufSize = Inr ?bH"
    using lw by (simp add: fileRead_def BufSize_def)
  have r2: "fileRead ?d BufSize BufSize = Inr ?bTS"
    using lw by (simp add: fileRead_def BufSize_def)
  have r3: "fileRead ?d (BufSize + BufSize) BufSize = Inr ?bLen"
    using lw by (simp add: fileRead_def BufSize_def)
  have fl: "filled BufSize ?bH = ?bH" "filled BufSize ?bTS = ?bTS" "filled BufSize ?bLen = ?bLen"
    using l3 by (simp_all add: filled_def del: take_append drop_append)
  have nth: "\<And>k. k < BufSize \<Longrightarrow> ?bH ! k = w ! k"
    "\<And>k. k < BufSize \<Longrightarrow> ?bTS ! k = w ! (BufSize + k)"
    "\<And>k. k < BufSize \<Longrightarrow> ?bLen ! k = w ! (BufSize + BufSize + k)"
    using lw by (simp_all add: nth_append BufSize_def)
  have dec: "\<And>i. i < NumElements \<Longrightarrow> getInt64 ?bH (8 * i) = blocks f ! i"
    "\<And>i. i < NumElements \<Longrightarrow> getInt64 ?bTS (8 * i) = timestamps f ! i"
    "\<And>i. i < NumElements \<Longrightarrow> getInt64 ?bLen (8 * i) = lengths f ! i"
  proof -
    fix i assume i: "i < NumElements"
    have k: "\<And>j. j < 8 \<Longrightarrow> 8 * i + j < BufSize"
      using i by (simp add: NumElements_def BufSize_def)
    show "getInt64 ?bH (8 * i) = blocks f ! i"
      using hd i k by (intro getInt64_byteOf) (simp add: nth(1) headerOf_def)
    show "getInt64 ?bTS (8 * i) = timestamps f ! i"
      using hd i k by (intro getInt64_byteOf) (simp add: nth(2) headerOf_def add.assoc)
    show "getInt64 ?bLen (8 * i) = lengths f ! i"
      using hd i k by (intro getInt64_byteOf) (simp add: nth(3) headerOf_def add.assoc)
  qed
  obtain h t l where P: "parseHeader ?bH ?bTS ?bLen = (8 * NumElements, h, t, l)"
    and h: "h = map (\<lambda>i. getInt64 ?bH (8 * i)) [0..<NumElements]"
    and t: "t = map (\<lambda>i. getInt64 ?bTS (8 * i)) [0..<NumElements]"
    and l: "l = map (\<lambda>i. getInt64 ?bLen (8 * i)) [0..<NumElements]"
    using parseHeader_eq[of ?bH ?bTS ?bLen] by blast
  have "h = blocks f" unfolding h using sz dec by (intro nth_equalityI) simp_all
  moreover have "t = timestamps f" unfolding t using sz dec by (intro nth_equalityI) simp_all
  moreover have "l = lengths f" unfolding l using sz dec by (intro nth_equalityI) simp_all
  ultimately have P': "parseHeader ?bH ?bTS ?bLen = (8 * NumElements, blocks f, timestamps f, lengths f)"
    using P by simp
  have hc: "headerChecked ?bH ?bTS ?bLen (BufSize + BufSize + BufSize) =
     Inr \<lparr>blocks = blocks f, timestamps = timestamps f, lengths = lengths f,
           curFile = Some (BufSize * 3), wBuf = replicate (BufSize * 3) 0, lastSeekPos = 0\<rparr>"
    unfolding headerChecked_def fl using l3 P' by simp
  show ?thesis
    unfolding NewGPFile_def using r1 r2 r3 l3 hc by (simp del: take_append drop_append)
qed

lemma getInt64_zero: "pos + 8 \<le> n \<Longrightarrow> getInt64 (replicate n 0) pos = 0"
  by (simp add: getInt64_def)

lemma NewGPFile_None:
  "NewGPFile None = (Inr emptyFile, Some (replicate (BufSize * 3) 0))"
proof -
  let ?z = "replicate BufSize (0::byte)"
  obtain h t l where P: "parseHeader ?z ?z ?z = (8 * NumElements, h, t, l)"
    and h: "h = map (\<lambda>i. getInt64 ?z (8 * i)) [0..<NumElements]"
    and t: "t = map (\<lambda>i. getInt64 ?z (8 * i)) [0..<NumElements]"
    and l: "l = map (\<lambda>i. getInt64 ?z (8 * i)) [0..<NumElements]"
    using parseHeader_eq[of ?z ?z ?z] by blast
  have z: "map (\<lambda>i. getInt64 ?z (8 * i)) [0..<NumElements] = replicate NumElements 0"
    by (intro nth_equalityI) (simp_all add: getInt64_zero NumElements_def BufSize_def)
  have fl: "filled BufSize ?z = ?z" by (simp add: filled_def)
  have "headerChecked ?z ?z ?z (BufSize * 3) = Inr emptyFile"
    unfolding headerChecked_def fl using P h t l z by (simp add: emptyFile_def)
  moreover have "?z @ ?z @ ?z = replicate (BufSize * 3) 0"
    by (simp only: replicate_add[symmetric]) simp
  ultimately show ?thesis by (simp add: NewGPFile_def Let_def)
qed

lemma sized_emptyFile: "sized emptyFile"
  by (simp add: sized_def emptyFile_def)

lemma WriteTimedBlock_dup:
  "findSlot f ts 0 = Inl e \<Longrightarrow> WriteTimedBlock enc fs f ts data = (Some e, f, fs)"
  unfolding WriteTimedBlock_def by (simp only: sum.case)

lemma WriteTimedBlock_full:
  "findSlot f ts 0 = Inr (newPos, - 1) \<Longrightarrow> WriteTimedBlock enc fs f ts data = (Some FileIsFull, f, fs)"
  unfolding WriteTimedBlock_def by (simp only: sum.case prod.case simp_thms if_True)

lemma WriteTimedBlock_nofile:
  "findSlot f ts 0 = Inr (newPos, nxt) \<Longrightarrow> nxt \<noteq> - 1 \<Longrightarrow>
   WriteTimedBlock enc None f ts data = (Some OpenError, f, None)"
  unfolding WriteTimedBlock_def by (simp only: sum.case prod.case if_False option.case)

lemma WriteTimedBlock_cerr:
  "findSlot f ts 0 = Inr (newPos, nxt) \<Longrightarrow> nxt \<noteq> - 1 \<Longrightarrow> compressErr (Compress enc data) \<Longrightarrow>
   WriteTimedBlock enc (Some d) f ts data = (Some CompressError, f, Some (d @ written (Compress enc data)))"
  unfolding WriteTimedBlock_def by (simp only: sum.case prod.case if_False option.case Let_def if_True)

lemma WriteTimedBlock_ok:
  "findSlot f ts 0 = Inr (newPos, nxt) \<Longrightarrow> nxt \<noteq> - 1 \<Longrightarrow> \<not> compressErr (Compress enc data) \<Longrightarrow>
   WriteTimedBlock enc (Some d) f ts data =
     (None, afterWrite f newPos (nxt + nWrite (Compress enc data)) ts (length data),
      Some (wBuf (afterWrite f newPos (nxt + nWrite (Compress enc data)) ts (length data)) @
            drop (length (wBuf (afterWrite f newPos (nxt + nWrite (Compress enc data)) ts (length data))))
              (d @ written (Compress enc data))))"
  unfolding WriteTimedBlock_def afterWrite_def
  by (simp only: sum.case prod.case if_False option.case Let_def)

lemma WriteTimedBlock_shape:
  assumes "fst (WriteTimedBlock enc fs f ts data) = None"
  obtains newPos nxt d where "findSlot f ts 0 = Inr (newPos, nxt)" "nxt \<noteq> - 1" "fs = Some d"
    "\<not> compressErr (Compress enc data)"
proof (cases "findSlot f ts 0")
  case (Inl e)
  then show ?thesis using assms by (simp add: WriteTimedBlock_dup)
next
  case (Inr pr)
  obtain newPos nxt where pr: "pr = (newPos, nxt)" by (cases pr)
  have F: "findSlot f ts 0 = Inr (newPos, nxt)" using Inr pr by simp
  have n1: "nxt \<noteq> - 1"
    using assms F WriteTimedBlock_full[of f ts newPos enc fs data] by auto
  obtain d where d: "fs = Some d"
    using assms WriteTimedBlock_nofile[OF F n1, of enc data] by (cases fs) simp_all
  have ce: "\<not> compressErr (Compress enc data)"
    using assms WriteTimedBlock_cerr[OF F n1, of enc data d] d by auto
  show ?thesis by (rule that[OF F n1 d ce])
qed

lemma afterWrite_fields:
  "blocks (afterWrite f newPos off ts n) = (blocks f)[newPos := off]"
  "timestamps (afterWrite f newPos off ts n) = (timestamps f)[newPos := ts]"
  "lengths (afterWrite f newPos off ts n) = (lengths f)[newPos := of_nat n]"
  "curFile (afterWrite f newPos off ts n) = curFile f"
  "lastSeekPos (afterWrite f newPos off ts n) = lastSeekPos f"
  by (simp_all add: afterWrite_def Let_def)

lemma headerOf_arrays:
  "blocks g = blocks f \<Longrightarrow> timestamps g = timestamps f \<Longrightarrow> lengths g = lengths f \<Longrightarrow>
   headerOf g n w = headerOf f n w"
  by (simp add: headerOf_def)

lemma afterWrite_header:
  assumes "sized f"
  shows "headerOf (afterWrite f newPos off ts n) NumElements (wBuf (afterWrite f newPos off ts n))"
    and "sized (afterWrite f newPos off ts n)"
proof -
  let ?f1 = "f\<lparr>blocks := (blocks f)[newPos := off], timestamps := (timestamps f)[newPos := ts],
                lengths := (lengths f)[newPos := of_nat n]\<rparr>"
  have h: "headerOf ?f1 NumElements (snd (putHeader ?f1))"
    using assms by (intro putHeader_headerOf) (simp add: sized_def)
  have w: "wBuf (afterWrite f newPos off ts n) = snd (putHeader ?f1)"
    by (simp add: afterWrite_def Let_def)
  show "headerOf (afterWrite f newPos off ts n) NumElements (wBuf (afterWrite f newPos off ts n))"
    unfolding w using h by (simp add: headerOf_def afterWrite_fields)
  then show "sized (afterWrite f newPos off ts n)"
    using assms by (simp add: sized_def afterWrite_fields headerOf_def)
qed

lemma WriteTimedBlock_reopen:
  assumes sz: "sized f" and ok: "fst (WriteTimedBlock enc fs f ts data) = None"
  shows "\<exists>g. NewGPFile (snd (snd (WriteTimedBlock enc fs f ts data))) =
            (Inr g, snd (snd (WriteTimedBlock enc fs f ts data))) \<and>
     blocks g = blocks (fst (snd (WriteTimedBlock enc fs f ts data))) \<and>
     timestamps g = timestamps (fst (snd (WriteTimedBlock enc fs f ts data))) \<and>
     lengths g = lengths (fst (snd (WriteTimedBlock enc fs f ts data)))"
proof -
  from ok obtain newPos nxt d where F: "findSlot f ts 0 = Inr (newPos, nxt)" and n1: "nxt \<noteq> - 1"
    and d: "fs = Some d" and ce: "\<not> compressErr (Compress enc data)"
    by (rule WriteTimedBlock_shape)
  let ?g = "afterWrite f newPos (nxt + nWrite (Compress enc data)) ts (length data)"
  have sg: "sized ?g" and hg: "headerOf ?g NumElements (wBuf ?g)"
    using afterWrite_header[OF sz] by blast+
  have s1: "length (blocks ?g) = NumElements" "length (timestamps ?g) = NumElements"
    "length (lengths ?g) = NumElements"
    using sg by (simp_all add: sized_def)
  show ?thesis
    unfolding d WriteTimedBlock_ok[OF F n1 ce] using NewGPFile_reopen[OF s1 hg] by simp
qed

lemma putSlot_getInt64:
  assumes "pos + 8 \<le> BufSize" and "length w = BufSize * 3"
  shows "getInt64 (putSlot f i pos w) pos = blocks f ! i"
    and "getInt64 (putSlot f i pos w) (BufSize + pos) = timestamps f ! i"
    and "getInt64 (putSlot f i pos w) (BufSize + BufSize + pos) = lengths f ! i"
  using assms(1)
  by (intro getInt64_byteOf; simp add: putSlot_nth(2)[OF assms])+

text \<open>
  Claim C10. The big-endian byte-shift encoding that \<open>WriteTimedBlock\<close> uses to
  serialise the header and the shift-or decoding of \<open>NewGPFile\<close> are mutual inverses,
  for every int64 value and every slot; consequently, reopening a file written by
  \<open>WriteTimedBlock\<close> reproduces the in-memory blocks, timestamps and lengths arrays.
\<close>

theorem header_roundtrip:
  "(pos + 8 \<le> BufSize \<and> length w = BufSize * 3 \<longrightarrow>
      getInt64 (putSlot f i pos w) pos = blocks f ! i \<and>
      getInt64 (putSlot f i pos w) (BufSize + pos) = timestamps f ! i \<and>
      getInt64 (putSlot f i pos w) (BufSize + BufSize + pos) = lengths f ! i) \<and>
   (j < 8 \<longrightarrow> byteOf (getInt64 buf p) j = buf ! (p + j)) \<and>
   (sized f \<and> fst (WriteTimedBlock enc fs f ts data) = None \<longrightarrow>
      (\<exists>g. NewGPFile (snd (snd (WriteTimedBlock enc fs f ts data))) =
              (Inr g, snd (snd (WriteTimedBlock enc fs f ts data))) \<and>
           blocks g = blocks (fst (snd (WriteTimedBlock enc fs f ts data))) \<and>
           timestamps g = timestamps (fst (snd (WriteTimedBlock enc fs f ts data))) \<and>
           lengths g = lengths (fst (snd (WriteTimedBlock enc fs f ts data)))))"
  using putSlot_getInt64[of pos w f i] byteOf_getInt64[of j buf p]
    WriteTimedBlock_reopen[of f enc fs ts data]
  by blast

lemma findSlot_emptyFile:
  "ts \<noteq> 0 \<Longrightarrow> findSlot emptyFile ts 0 = Inr (0, of_nat (BufSize * 3))"
  by (subst findSlot.simps) (simp add: emptyFile_def NumElements_def BufSize_def Let_def)

lemma header_off_not_m1: "(of_nat (BufSize * 3) :: int64) \<noteq> - 1"
  by (simp add: BufSize_def)

lemma tagEncoder_ok: "\<not> compressErr (Compress tagEncoder data)"
  by (simp add: tagEncoder_def)

lemma first_write_ok:
  "fst (WriteTimedBlock tagEncoder (Some (replicate (BufSize * 3) 0)) emptyFile 1 [7]) = None"
proof -
  have "findSlot emptyFile 1 0 = Inr (0, of_nat (BufSize * 3))"
    by (rule findSlot_emptyFile) simp
  from WriteTimedBlock_ok[OF this header_off_not_m1 tagEncoder_ok]
  show ?thesis by simp
qed

theorem header_roundtrip_witness:
  "getInt64 (putSlot emptyFile 0 0 (wBuf emptyFile)) 0 = blocks emptyFile ! 0 \<and>
   byteOf (getInt64 [1, 2, 3, 4, 5, 6, 7, 8] 0) 0 = [1, 2, 3, 4, 5, 6, 7, 8] ! (0 + 0) \<and>
   sized emptyFile \<and>
   fst (WriteTimedBlock tagEncoder (Some (replicate (BufSize * 3) 0)) emptyFile 1 [7]) = None \<and>
   (\<exists>g. NewGPFile (snd (snd (WriteTimedBlock tagEncoder (Some (replicate (BufSize * 3) 0)) emptyFile 1 [7]))) =
          (Inr g, snd (snd (WriteTimedBlock tagEncoder (Some (replicate (BufSize * 3) 0)) emptyFile 1 [7]))) \<and>
        blocks g = blocks (fst (snd (WriteTimedBlock tagEncoder (Some (replicate (BufSize * 3) 0)) emptyFile 1 [7]))) \<and>
        timestamps g = timestamps (fst (snd (WriteTimedBlock tagEncoder (Some (replicate (BufSize * 3) 0)) emptyFile 1 [7]))) \<and>
        lengths g = lengths (fst (snd (WriteTimedBlock tagEncoder (Some (replicate (BufSize * 3) 0)) emptyFile 1 [7]))))"
proof -
  have a: "0 + 8 \<le> BufSize \<and> length (wBuf emptyFile) = BufSize * 3"
    by (simp add: emptyFile_def BufSize_def)
  have b: "(0::nat) < 8" by simp
  show ?thesis
    using header_roundtrip[of 0 "wBuf emptyFile" emptyFile 0 0 "[1, 2, 3, 4, 5, 6, 7, 8]" 0
        tagEncoder "Some (replicate (BufSize * 3) 0)" 1 "[7]"]
      a b sized_emptyFile first_write_ok
    by blast
qed

lemma BlocksUsedLoop_found:
  "i \<le> k \<Longrightarrow> k < NumElements \<Longrightarrow> emptySlot f k \<Longrightarrow> (\<forall>j. i \<le> j \<and> j < k \<longrightarrow> \<not> emptySlot f j) \<Longrightarrow>
   BlocksUsedLoop f i = (int k, None)"
proof (induction "k - i" arbitrary: i)
  case 0
  then have "i = k" by simp
  then show ?case using 0 by (subst BlocksUsedLoop.simps) (simp add: emptySlot_def)
next
  case (Suc n)
  then have ne: "\<not> emptySlot f i" and lt: "i < NumElements" by auto
  have "BlocksUsedLoop f (i + 1) = (int k, None)"
    using Suc by (intro Suc.hyps(1)) auto
  then show ?case using ne lt by (subst BlocksUsedLoop.simps) (auto simp: emptySlot_def)
qed

lemma BlocksUsedLoop_none:
  "(\<forall>j. i \<le> j \<and> j < NumElements \<longrightarrow> \<not> emptySlot f j) \<Longrightarrow>
   BlocksUsedLoop f i = (- 1, Some CouldNotRetrieveBlocks)"
proof (induction "NumElements - i" arbitrary: i)
  case 0
  then show ?case by (subst BlocksUsedLoop.simps) simp
next
  case (Suc n)
  then have ne: "\<not> emptySlot f i" and lt: "i < NumElements" by auto
  have "BlocksUsedLoop f (i + 1) = (- 1, Some CouldNotRetrieveBlocks)"
    using Suc by (intro Suc.hyps(1)) auto
  then show ?case using ne lt by (subst BlocksUsedLoop.simps) (auto simp: emptySlot_def)
qed

text \<open>
  Claim C3, amended. For every file object, \<open>BlocksUsed\<close> returns the smallest index
  whose header slot triple (offset, timestamp, length) is all zeros; if all 512 slots are
  occupied it returns \<open>-1\<close> together with an error (not 512).
\<close>

theorem BlocksUsed_spec:
  "(k < NumElements \<and> emptySlot f k \<and> (\<forall>j<k. \<not> emptySlot f j) \<longrightarrow> BlocksUsed f = (int k, None)) \<and>
   ((\<forall>j<NumElements. \<not> emptySlot f j) \<longrightarrow> BlocksUsed f = (- 1, Some CouldNotRetrieveBlocks))"
  using BlocksUsedLoop_found[of 0 k f] BlocksUsedLoop_none[of 0 f]
  by (simp add: BlocksUsed_def)

lemma fullFile_occupied: "j < NumElements \<Longrightarrow> \<not> emptySlot fullFile j"
  by (simp add: emptySlot_def fullFile_def)

theorem BlocksUsed_full_counterexample:
  "BlocksUsed fullFile = (- 1, Some CouldNotRetrieveBlocks) \<and> BlocksUsed fullFile \<noteq> (512, None)"
  using BlocksUsedLoop_none[of 0 fullFile] fullFile_occupied
  by (simp add: BlocksUsed_def)

theorem BlocksUsed_spec_witness:
  "BlocksUsed emptyFile = (0, None) \<and> BlocksUsed fullFile = (- 1, Some CouldNotRetrieveBlocks)"
proof -
  have e: "0 < NumElements \<and> emptySlot emptyFile 0 \<and> (\<forall>j<0. \<not> emptySlot emptyFile j)"
    by (simp add: emptySlot_def emptyFile_def NumElements_def BufSize_def)
  have f: "\<forall>j<NumElements. \<not> emptySlot fullFile j"
    using fullFile_occupied by blast
  show ?thesis
    using BlocksUsed_spec[of 0 emptyFile] BlocksUsed_spec[of 0 fullFile] e f by simp
qed


lemma ReadBlock_eq:
  assumes b: "b < NumElements" and sz: "sized f" and ne: "\<not> emptySlot f b" and rd: "readable fs f b"
  shows "fst (ReadBlock enc fs f (int b)) =
     (if uncompLen (decompressCall enc fs f b) \<noteq> readLenOf f b then Inl IncorrectBytesRead
      else Inr (take (unat (lengths f ! b))
                 (outBytes (decompressCall enc fs f b) @ replicate (unat (lengths f ! b)) 0)))"
proof -
  have rng: "\<not> (int b < 0 \<or> int (length (timestamps f)) \<le> int b \<or> int (length (blocks f)) \<le> int b
         \<or> int (length (lengths f)) \<le> int b)"
    using b sz by (simp add: sized_def)
  have ne': "\<not> (timestamps f ! b = 0 \<and> blocks f ! b = 0 \<and> lengths f ! b = 0)"
    using ne by (simp add: emptySlot_def)
  obtain off where off: "(case curFile f of Some off \<Rightarrow> Some off
                 | None \<Rightarrow> (case fs of None \<Rightarrow> None | Some d \<Rightarrow> Some 0)) = Some off"
    and off': "off = (case curFile f of Some off \<Rightarrow> off | None \<Rightarrow> 0)"
    using rd by (auto simp: readable_def split: option.splits)
  have u: "\<And>g. seekPosOf (f\<lparr>curFile := g\<rparr>) b = seekPosOf f b"
    "\<And>g. readLenOf (f\<lparr>curFile := g\<rparr>) b = readLenOf f b"
    by (simp_all add: seekPosOf_def readLenOf_def)
  show ?thesis
    unfolding ReadBlock_def
    apply (simp only: rng if_False Let_def nat_int ne' off option.case u)
    using rd off'
    apply (simp add: readable_def decompressCall_def readOffset_def)
    done
qed

lemma ReadBlock_length:
  "fst (ReadBlock enc fs f block) = Inr buf \<Longrightarrow> length buf = unat (lengths f ! nat block)"
  unfolding ReadBlock_def
  by (auto simp: Let_def min_def split: if_splits option.splits)

text \<open>
  Claim C4, amended. For every file object and every used block index \<open>i\<close> that can be
  read, \<open>ReadBlock(i)\<close> fails with the short-read error if and only if the count that
  \<open>Decompress\<close> returns differs from the block's compressed length
  \<open>offsets[i] - offsets[i-1]\<close> (from the end of the header for \<open>i = 0\<close>); on success it
  returns a buffer of exactly the declared length \<open>uncompressedLengths[i]\<close>.
\<close>

theorem ReadBlock_short_read:
  "(b < NumElements \<and> sized f \<and> \<not> emptySlot f b \<and> readable fs f b \<longrightarrow>
      fst (ReadBlock enc fs f (int b)) =
        (if uncompLen (decompressCall enc fs f b) \<noteq> readLenOf f b then Inl IncorrectBytesRead
         else Inr (take (unat (lengths f ! b))
                 (outBytes (decompressCall enc fs f b) @ replicate (unat (lengths f ! b)) 0)))) \<and>
   (fst (ReadBlock enc fs f block) = Inr buf \<longrightarrow> length buf = unat (lengths f ! nat block))"
  using ReadBlock_eq[of b f fs enc] ReadBlock_length[of enc fs f block buf] by blast

lemma writeA:
  "WriteTimedBlock sizeEncoder (Some (replicate (BufSize * 3) 0)) emptyFile 1 [7, 7, 7] =
     (None, afterWrite emptyFile 0 (of_nat (BufSize * 3) + 4) 1 3,
      Some (wBuf (afterWrite emptyFile 0 (of_nat (BufSize * 3) + 4) 1 3) @ [1, 7, 7, 7]))"
proof -
  have F: "findSlot emptyFile 1 0 = Inr (0, of_nat (BufSize * 3))"
    by (rule findSlot_emptyFile) simp
  have c: "\<not> compressErr (Compress sizeEncoder [7, 7, 7])" by (simp add: sizeEncoder_def)
  have l: "length (wBuf (afterWrite emptyFile 0 (of_nat (BufSize * 3) + 4) 1 3)) = BufSize * 3"
    using afterWrite_header(2)[OF sized_emptyFile] by (simp add: sized_def)
  have w: "nWrite (Compress sizeEncoder [7, 7, 7]) = 4" "written (Compress sizeEncoder [7, 7, 7]) = [1, 7, 7, 7]"
    by (simp_all add: sizeEncoder_def)
  have n3: "length [7, 7, 7 :: byte] = 3" by simp
  have dr: "\<And>n ys. drop n (replicate n (0::byte) @ ys) = ys" by simp
  show ?thesis
    using WriteTimedBlock_ok[OF F header_off_not_m1 c, of "replicate (BufSize * 3) 0"]
    by (simp only: w n3 l dr)
qed

lemma fileA_fields:
  "blocks fileA ! 0 = of_nat (BufSize * 3) + 4" "timestamps fileA ! 0 = 1" "lengths fileA ! 0 = 3"
  "curFile fileA = Some (BufSize * 3)" "lastSeekPos fileA = 0" "sized fileA"
  "diskA = Some (wBuf fileA @ [1, 7, 7, 7])" "length (wBuf fileA) = BufSize * 3"
  unfolding fileA_def diskA_def writeA fst_conv snd_conv
  using afterWrite_header(2)[OF sized_emptyFile, of 0 "of_nat (BufSize * 3) + 4" 1 3]
  by (simp_all add: afterWrite_fields emptyFile_def NumElements_def BufSize_def sized_def)

lemma fileB_fields:
  "blocks fileB ! 0 = of_nat (BufSize * 3) + 4" "timestamps fileB ! 0 = 1" "lengths fileB ! 0 = 5"
  "curFile fileB = Some (BufSize * 3)" "lastSeekPos fileB = 0" "sized fileB"
  by (simp_all add: fileB_def emptyFile_def NumElements_def BufSize_def sized_def)

lemma dB: "Decompress tagEncoder 4 5 [1, 7, 7, 7] =
    \<lparr>uncompLen = 4, decompressErr = False, outBytes = [7, 7, 7], consumed = 4\<rparr>"
  by (simp add: tagEncoder_def)

lemma pad5: "take 5 ([7, 7, 7 :: byte] @ replicate 5 0) = [7, 7, 7, 0, 0]"
  by (simp add: eval_nat_numeral)

lemma readA:
  "seekPosOf fileA 0 = of_nat (BufSize * 3)" "readLenOf fileA 0 = 4" "readOffset fileA 0 = BufSize * 3"
  "readable diskA fileA 0" "\<not> emptySlot fileA 0"
  "decompressCall sizeEncoder diskA fileA 0 = Decompress sizeEncoder 4 3 [1, 7, 7, 7]"
  by (simp_all add: seekPosOf_def readLenOf_def readOffset_def readable_def emptySlot_def
      decompressCall_def fileA_fields BufSize_def word_sless_alt)

lemma readB:
  "seekPosOf fileB 0 = of_nat (BufSize * 3)" "readLenOf fileB 0 = 4" "readOffset fileB 0 = BufSize * 3"
  "readable diskB fileB 0" "\<not> emptySlot fileB 0"
  "decompressCall tagEncoder diskB fileB 0 = Decompress tagEncoder 4 5 [1, 7, 7, 7]"
  by (simp_all add: seekPosOf_def readLenOf_def readOffset_def readable_def emptySlot_def
      decompressCall_def fileB_fields diskB_def BufSize_def word_sless_alt)

theorem ReadBlock_short_read_counterexample:
  "fst (ReadBlock sizeEncoder diskA fileA 0) = Inl IncorrectBytesRead \<and>
   uncompLen (Decompress sizeEncoder 4 3 [1, 7, 7, 7]) = lengths fileA ! 0 \<and>
   fst (ReadBlock tagEncoder diskB fileB 0) = Inr [7, 7, 7, 0, 0] \<and>
   outBytes (Decompress tagEncoder 4 5 [1, 7, 7, 7]) = [7, 7, 7] \<and>
   lengths fileB ! 0 = 5"
proof -
  have n: "(0::nat) < NumElements" by (simp add: NumElements_def BufSize_def)
  have a: "fst (ReadBlock sizeEncoder diskA fileA (int 0)) = Inl IncorrectBytesRead"
    unfolding ReadBlock_eq[OF n fileA_fields(6) readA(5) readA(4)] readA
    by (simp add: sizeEncoder_def)
  have b: "fst (ReadBlock tagEncoder diskB fileB (int 0)) = Inr [7, 7, 7, 0, 0]"
    unfolding ReadBlock_eq[OF n fileB_fields(6) readB(5) readB(4)] readB dB fileB_fields
    using pad5 by simp
  show ?thesis
    using a b by (simp add: sizeEncoder_def tagEncoder_def fileA_fields fileB_fields)
qed

theorem ReadBlock_short_read_witness:
  "fst (ReadBlock tagEncoder diskB fileB (int 0)) = Inr [7, 7, 7, 0, 0] \<and>
   length [7, 7, 7, 0, 0 :: byte] = unat (lengths fileB ! nat (int 0))"
proof -
  have n: "(0::nat) < NumElements" by (simp add: NumElements_def BufSize_def)
  have h: "0 < NumElements \<and> sized fileB \<and> \<not> emptySlot fileB 0 \<and> readable diskB fileB 0"
    using n fileB_fields(6) readB(4,5) by simp
  from ReadBlock_short_read[of 0 fileB diskB tagEncoder "int 0" "[7, 7, 7, 0, 0]"] h
  have r: "fst (ReadBlock tagEncoder diskB fileB (int 0)) =
        (if uncompLen (decompressCall tagEncoder diskB fileB 0) \<noteq> readLenOf fileB 0 then Inl IncorrectBytesRead
         else Inr (take (unat (lengths fileB ! 0))
                 (outBytes (decompressCall tagEncoder diskB fileB 0) @ replicate (unat (lengths fileB ! 0)) 0)))"
    and l: "fst (ReadBlock tagEncoder diskB fileB (int 0)) = Inr [7, 7, 7, 0, 0] \<longrightarrow>
       length [7, 7, 7, 0, 0 :: byte] = unat (lengths fileB ! nat (int 0))"
    by blast+
  have "fst (ReadBlock tagEncoder diskB fileB (int 0)) = Inr [7, 7, 7, 0, 0]"
    unfolding r readB dB fileB_fields using pad5 by simp
  then show ?thesis using l by blast
qed


lemma findSlot_dup:
  "i \<le> k \<Longrightarrow> k < NumElements \<Longrightarrow> timestamps f ! k = ts \<Longrightarrow>
   (\<forall>j. i \<le> j \<and> j < k \<longrightarrow> timestamps f ! j \<noteq> ts \<and> timestamps f ! j \<noteq> 0) \<Longrightarrow>
   findSlot f ts i = Inl (TimestampExists ts)"
proof (induction "k - i" arbitrary: i)
  case 0
  then have "i = k" by simp
  then show ?case using 0 by (subst findSlot.simps) (simp add: Let_def)
next
  case (Suc n)
  then have ne: "timestamps f ! i \<noteq> ts" "timestamps f ! i \<noteq> 0" and lt: "i < NumElements" by auto
  have "findSlot f ts (i + 1) = Inl (TimestampExists ts)"
    using Suc by (intro Suc.hyps(1)) auto
  then show ?case using ne lt by (subst findSlot.simps) (simp add: Let_def)
qed

lemma findSlot_free:
  "i \<le> k \<Longrightarrow> k < NumElements \<Longrightarrow> timestamps f ! k = 0 \<Longrightarrow> ts \<noteq> 0 \<Longrightarrow>
   (\<forall>j. i \<le> j \<and> j < k \<longrightarrow> timestamps f ! j \<noteq> ts \<and> timestamps f ! j \<noteq> 0) \<Longrightarrow>
   findSlot f ts i = Inr (k, seekPosOf f k)"
proof (induction "k - i" arbitrary: i)
  case 0
  then have "i = k" by simp
  then show ?case using 0 by (subst findSlot.simps) (simp add: Let_def seekPosOf_def)
next
  case (Suc n)
  then have ne: "timestamps f ! i \<noteq> ts" "timestamps f ! i \<noteq> 0" and lt: "i < NumElements" by auto
  have "findSlot f ts (i + 1) = Inr (k, seekPosOf f k)"
    using Suc by (intro Suc.hyps(1)) auto
  then show ?case using ne lt by (subst findSlot.simps) (simp add: Let_def)
qed

lemma findSlot_full:
  "(\<forall>j. i \<le> j \<and> j < NumElements \<longrightarrow> timestamps f ! j \<noteq> ts \<and> timestamps f ! j \<noteq> 0) \<Longrightarrow>
   findSlot f ts i = Inr (max i NumElements, - 1)"
proof (induction "NumElements - i" arbitrary: i)
  case 0
  then show ?case by (subst findSlot.simps) (simp add: max_def)
next
  case (Suc n)
  then have ne: "timestamps f ! i \<noteq> ts" "timestamps f ! i \<noteq> 0" and lt: "i < NumElements" by auto
  have "findSlot f ts (i + 1) = Inr (max (i + 1) NumElements, - 1)"
    using Suc by (intro Suc.hyps(1)) auto
  then show ?case using ne lt by (subst findSlot.simps) (simp add: Let_def max_def)
qed

lemma wf_used:
  assumes "wellFormed f" "k < NumElements" "\<not> emptySlot f k"
  shows "timestamps f ! k \<noteq> 0"
proof
  assume z: "timestamps f ! k = 0"
  from assms(1) have "\<forall>i<NumElements. timestamps f ! i = 0 \<longrightarrow>
        blocks f ! i = 0 \<and> lengths f ! i = 0 \<and>
        (\<forall>j. i \<le> j \<and> j < NumElements \<longrightarrow> timestamps f ! j = 0)"
    unfolding wellFormed_def by (elim conjE)
  with assms(2) z have "blocks f ! k = 0 \<and> lengths f ! k = 0" by blast
  with z assms(3) show False by (simp add: emptySlot_def)
qed

lemma wf_zero_after:
  assumes "wellFormed f" "i < NumElements" "timestamps f ! i = 0" "i \<le> j" "j < NumElements"
  shows "timestamps f ! j = 0"
proof -
  from assms(1) have "\<forall>i<NumElements. timestamps f ! i = 0 \<longrightarrow>
        blocks f ! i = 0 \<and> lengths f ! i = 0 \<and>
        (\<forall>j. i \<le> j \<and> j < NumElements \<longrightarrow> timestamps f ! j = 0)"
    unfolding wellFormed_def by (elim conjE)
  with assms(2,3) have "\<forall>j. i \<le> j \<and> j < NumElements \<longrightarrow> timestamps f ! j = 0" by blast
  with assms(4,5) show ?thesis by blast
qed

lemma wf_prefix:
  assumes "wellFormed f" "j < k" "k < NumElements" "timestamps f ! k \<noteq> 0"
  shows "timestamps f ! j \<noteq> 0"
proof
  assume "timestamps f ! j = 0"
  moreover have "j < NumElements" using assms by simp
  ultimately have "timestamps f ! k = 0"
    using assms(1,2,3) by (intro wf_zero_after[of f j k]) simp_all
  with assms(4) show False by simp
qed

lemma WriteTimedBlock_duplicate:
  assumes wf: "wellFormed f" and mem: "ts \<in> set (timestamps f)"
  shows "WriteTimedBlock enc fs f ts data = (Some (TimestampExists ts), f, fs)"
proof -
  have len: "length (timestamps f) = NumElements" using wf by (simp add: wellFormed_def sized_def)
  from mem obtain k0 where k0: "k0 < NumElements" "timestamps f ! k0 = ts"
    using len by (auto simp: in_set_conv_nth)
  define k where "k = (LEAST k. k < NumElements \<and> timestamps f ! k = ts)"
  have k: "k < NumElements \<and> timestamps f ! k = ts"
    unfolding k_def using k0 by (intro LeastI[of "\<lambda>k. k < NumElements \<and> timestamps f ! k = ts" k0]) simp
  have least: "\<And>j. j < k \<Longrightarrow> timestamps f ! j \<noteq> ts"
  proof
    fix j assume j: "j < k" "timestamps f ! j = ts"
    then have "j < NumElements \<and> timestamps f ! j = ts" using k by simp
    then have "k \<le> j" unfolding k_def by (rule Least_le)
    with j show False by simp
  qed
  have nz: "\<And>j. j < k \<Longrightarrow> timestamps f ! j \<noteq> 0"
  proof
    fix j assume j: "j < k" "timestamps f ! j = 0"
    have "timestamps f ! k = 0"
      using wf j k by (intro wf_zero_after[of f j k]) simp_all
    then have "timestamps f ! j = ts" using k j by simp
    with least[OF j(1)] show False by simp
  qed
  have "findSlot f ts 0 = Inl (TimestampExists ts)"
    using k least nz by (intro findSlot_dup[of 0 k]) auto
  then show ?thesis by (rule WriteTimedBlock_dup)
qed

lemma WriteTimedBlock_file_full:
  assumes wf: "wellFormed f" and nomem: "ts \<notin> set (timestamps f)"
    and full: "\<forall>i<NumElements. \<not> emptySlot f i"
  shows "WriteTimedBlock enc fs f ts data = (Some FileIsFull, f, fs)"
proof -
  have len: "length (timestamps f) = NumElements" using wf by (simp add: wellFormed_def sized_def)
  have "\<forall>j. 0 \<le> j \<and> j < NumElements \<longrightarrow> timestamps f ! j \<noteq> ts \<and> timestamps f ! j \<noteq> 0"
    using nomem len full wf_used[OF wf] by (auto simp: in_set_conv_nth)
  then have "findSlot f ts 0 = Inr (max 0 NumElements, - 1)" by (rule findSlot_full)
  then show ?thesis by (rule WriteTimedBlock_full)
qed

lemma seekPosOf_not_m1:
  assumes "wellFormed f" "k < NumElements"
  shows "seekPosOf f k \<noteq> - 1"
proof (cases "k = 0")
  case True
  then show ?thesis using header_off_not_m1 by (simp add: seekPosOf_def)
next
  case False
  then have "k - 1 < NumElements" using assms(2) by simp
  moreover from assms(1) have "\<forall>i<NumElements. blocks f ! i \<noteq> - 1"
    unfolding wellFormed_def by (elim conjE)
  ultimately have "blocks f ! (k - 1) \<noteq> - 1" by blast
  then show ?thesis using False by (simp add: seekPosOf_def)
qed

lemma wf_empty_iff:
  assumes "wellFormed f" "k < NumElements"
  shows "emptySlot f k \<longleftrightarrow> timestamps f ! k = 0"
proof
  assume "emptySlot f k" then show "timestamps f ! k = 0" by (simp add: emptySlot_def)
next
  assume z: "timestamps f ! k = 0"
  show "emptySlot f k"
  proof (rule ccontr)
    assume "\<not> emptySlot f k"
    from wf_used[OF assms this] z show False by simp
  qed
qed

lemma WriteTimedBlock_success:
  assumes wf: "wellFormed f" and nomem: "ts \<notin> set (timestamps f)"
    and k: "k < NumElements" and ek: "emptySlot f k" and used: "\<forall>j<k. \<not> emptySlot f j"
    and ce: "\<not> compressErr (Compress enc data)"
  shows "WriteTimedBlock enc (Some d) f ts data =
     (None, afterWrite f k (seekPosOf f k + nWrite (Compress enc data)) ts (length data),
      Some (wBuf (afterWrite f k (seekPosOf f k + nWrite (Compress enc data)) ts (length data)) @
            drop (length (wBuf (afterWrite f k (seekPosOf f k + nWrite (Compress enc data)) ts (length data))))
              (d @ written (Compress enc data))))"
    and "BlocksUsed f = (int k, None)"
    and "k + 1 < NumElements \<Longrightarrow>
      BlocksUsed (afterWrite f k (seekPosOf f k + nWrite (Compress enc data)) ts (length data)) = (int k + 1, None)"
    and "k + 1 = NumElements \<Longrightarrow>
      BlocksUsed (afterWrite f k (seekPosOf f k + nWrite (Compress enc data)) ts (length data)) =
        (- 1, Some CouldNotRetrieveBlocks)"
proof -
  let ?g = "afterWrite f k (seekPosOf f k + nWrite (Compress enc data)) ts (length data)"
  have len: "length (timestamps f) = NumElements" "length (blocks f) = NumElements"
    "length (lengths f) = NumElements"
    using wf by (simp_all add: wellFormed_def sized_def)
  have zk: "timestamps f ! k = 0" using ek by (simp add: emptySlot_def)
  have tsnz: "ts \<noteq> 0" using nomem zk k len by (metis nth_mem)
  have nzj: "\<And>j. j < k \<Longrightarrow> timestamps f ! j \<noteq> 0"
    using used wf_used[OF wf] k by simp
  have nej: "\<And>j. j < NumElements \<Longrightarrow> timestamps f ! j \<noteq> ts"
    using nomem len by (metis nth_mem)
  have F: "findSlot f ts 0 = Inr (k, seekPosOf f k)"
    using k zk tsnz nzj nej by (intro findSlot_free) simp_all
  show "WriteTimedBlock enc (Some d) f ts data =
     (None, ?g, Some (wBuf ?g @ drop (length (wBuf ?g)) (d @ written (Compress enc data))))"
    by (rule WriteTimedBlock_ok[OF F seekPosOf_not_m1[OF wf k] ce])
  show "BlocksUsed f = (int k, None)"
    unfolding BlocksUsed_def using k ek used by (intro BlocksUsedLoop_found) simp_all
  have gk: "\<not> emptySlot ?g k"
    using tsnz k len by (simp add: emptySlot_def afterWrite_fields)
  have gj: "\<And>j. j < k \<Longrightarrow> \<not> emptySlot ?g j"
    using used by (simp add: emptySlot_def afterWrite_fields)
  {
    assume k1: "k + 1 < NumElements"
    have "timestamps f ! (k + 1) = 0"
      using wf k zk k1 by (intro wf_zero_after[of f k "k + 1"]) simp_all
    then have "emptySlot f (k + 1)" using wf_empty_iff[OF wf k1] by simp
    then have e1: "emptySlot ?g (k + 1)"
      by (simp add: emptySlot_def afterWrite_fields)
    have "\<forall>j. 0 \<le> j \<and> j < k + 1 \<longrightarrow> \<not> emptySlot ?g j"
      using gk gj by (auto simp: less_Suc_eq)
    then have "BlocksUsedLoop ?g 0 = (int (k + 1), None)"
      using k1 e1 by (intro BlocksUsedLoop_found) simp_all
    then show "BlocksUsed ?g = (int k + 1, None)" by (simp add: BlocksUsed_def)
  }
  {
    assume kN: "k + 1 = NumElements"
    have "\<forall>j. 0 \<le> j \<and> j < NumElements \<longrightarrow> \<not> emptySlot ?g j"
    proof (intro allI impI)
      fix j assume "0 \<le> j \<and> j < NumElements"
      then have "j < k \<or> j = k" using kN by arith
      then show "\<not> emptySlot ?g j" using gk gj by blast
    qed
    then show "BlocksUsed ?g = (- 1, Some CouldNotRetrieveBlocks)"
      unfolding BlocksUsed_def by (rule BlocksUsedLoop_none)
  }
qed

lemma unat_of_nat64: "n < 2 ^ 64 \<Longrightarrow> unat (of_nat n :: int64) = n"
  by (simp add: unat_of_nat)

lemma of_nat_eq64: "n < 2 ^ 64 \<Longrightarrow> m < 2 ^ 64 \<Longrightarrow> (of_nat n :: int64) = of_nat m \<longleftrightarrow> n = m"
  using unat_of_nat64[of n] unat_of_nat64[of m] by (auto simp: word_unat_eq_iff)

lemma sint_of_nat64: "n < 2 ^ 63 \<Longrightarrow> sint (of_nat n :: int64) = int n"
proof -
  assume n: "n < 2 ^ 63"
  have "int n < 2 ^ 63" using n by (metis of_nat_less_iff of_nat_numeral of_nat_power)
  then have "signed_take_bit 63 (int n) = int n"
    by (intro signed_take_bit_int_eq_self) simp_all
  then show ?thesis by (simp add: signed_of_nat)
qed

lemma not_neg64: "n < 2 ^ 63 \<Longrightarrow> \<not> (of_nat n :: int64) <s 0"
  by (simp add: word_sless_alt sint_of_nat64)

lemma not_m1_64: "n < 2 ^ 63 \<Longrightarrow> (of_nat n :: int64) \<noteq> - 1"
proof
  assume n: "n < 2 ^ 63" and e: "(of_nat n :: int64) = - 1"
  have "sint (of_nat n :: int64) = int n" using n by (rule sint_of_nat64)
  with e show False by simp
qed

lemma usedFile_nth:
  assumes "n \<le> NumElements" "i < NumElements"
  shows "timestamps (usedFile n) ! i = (if i < n then of_nat (i + 1) else 0)"
    and "blocks (usedFile n) ! i = (if i < n then of_nat (BufSize * 3 + 2 * (i + 1)) else 0)"
    and "lengths (usedFile n) ! i = (if i < n then 1 else 0)"
  using assms by (simp_all add: usedFile_def nth_append)

lemma usedFile_sized: "n \<le> NumElements \<Longrightarrow> sized (usedFile n)"
  by (simp add: sized_def usedFile_def)

lemma usedFile_small: "i < NumElements \<Longrightarrow> i + 1 < 2 ^ 64" "i < NumElements \<Longrightarrow> BufSize * 3 + 2 * (i + 1) < 2 ^ 63"
  by (simp_all add: NumElements_def BufSize_def)

lemma usedFile_ts_zero:
  assumes "n \<le> NumElements" "i < NumElements"
  shows "timestamps (usedFile n) ! i = 0 \<longleftrightarrow> n \<le> i"
  using assms of_nat_eq64[of "i + 1" 0] usedFile_small(1)[of i]
  by (auto simp: usedFile_nth)

lemma usedFile_empty:
  assumes "n \<le> NumElements" "i < NumElements"
  shows "emptySlot (usedFile n) i \<longleftrightarrow> n \<le> i"
  using assms by (auto simp: emptySlot_def usedFile_nth)

lemma usedFile_wf: "n \<le> NumElements \<Longrightarrow> wellFormed (usedFile n)"
  unfolding wellFormed_def
proof (intro conjI allI impI)
  assume n: "n \<le> NumElements"
  show "sized (usedFile n)" using n by (rule usedFile_sized)
  fix i assume i: "i < NumElements"
  show "blocks (usedFile n) ! i \<noteq> - 1"
    using not_m1_64[OF usedFile_small(2)[OF i]] n i by (simp add: usedFile_nth)
  assume z: "timestamps (usedFile n) ! i = 0"
  then have ni: "n \<le> i" using usedFile_ts_zero[OF n i] by simp
  show "blocks (usedFile n) ! i = 0" "lengths (usedFile n) ! i = 0"
    using ni n i by (simp_all add: usedFile_nth)
  fix j assume "i \<le> j \<and> j < NumElements"
  then show "timestamps (usedFile n) ! j = 0"
    using ni n usedFile_ts_zero[of n j] by simp
qed

lemma usedFile_mem:
  assumes "n \<le> NumElements" "t < 2 ^ 64"
  shows "of_nat t \<in> set (timestamps (usedFile n)) \<longleftrightarrow> (1 \<le> t \<and> t \<le> n) \<or> (t = 0 \<and> n < NumElements)"
proof -
  have len: "length (timestamps (usedFile n)) = NumElements"
    using usedFile_sized[OF assms(1)] by (simp add: sized_def)
  have "of_nat t \<in> set (timestamps (usedFile n)) \<longleftrightarrow> (\<exists>i<NumElements. timestamps (usedFile n) ! i = of_nat t)"
    using len by (auto simp: in_set_conv_nth)
  also have "\<dots> \<longleftrightarrow> (\<exists>i<NumElements. (i < n \<and> i + 1 = t) \<or> (n \<le> i \<and> t = 0))"
  proof (intro ex_cong1 conj_cong refl)
    fix i assume i: "i < NumElements"
    show "timestamps (usedFile n) ! i = of_nat t \<longleftrightarrow> (i < n \<and> i + 1 = t) \<or> (n \<le> i \<and> t = 0)"
      using of_nat_eq64[OF usedFile_small(1)[OF i] assms(2)] of_nat_eq64[of 0 t] assms i
      by (auto simp: usedFile_nth)
  qed
  also have "\<dots> \<longleftrightarrow> (1 \<le> t \<and> t \<le> n) \<or> (t = 0 \<and> n < NumElements)"
  proof
    assume "\<exists>i<NumElements. (i < n \<and> i + 1 = t) \<or> (n \<le> i \<and> t = 0)"
    then show "(1 \<le> t \<and> t \<le> n) \<or> (t = 0 \<and> n < NumElements)" by auto
  next
    assume "(1 \<le> t \<and> t \<le> n) \<or> (t = 0 \<and> n < NumElements)"
    then show "\<exists>i<NumElements. (i < n \<and> i + 1 = t) \<or> (n \<le> i \<and> t = 0)"
    proof
      assume a: "1 \<le> t \<and> t \<le> n"
      then have "t - 1 < NumElements \<and> (t - 1 < n \<and> t - 1 + 1 = t)" using assms(1) by arith
      then show ?thesis by blast
    next
      assume "t = 0 \<and> n < NumElements"
      then show ?thesis by blast
    qed
  qed
  finally show ?thesis .
qed

text \<open>
  Claim C5, amended. For every file object that satisfies the header invariant and every
  timestamp \<open>ts\<close>: \<open>WriteTimedBlock(ts, payload)\<close> fails with the duplicate-timestamp
  error if \<open>ts\<close> is already present in the header, fails with the file-full error if all
  512 slots are occupied, and otherwise (the file can be opened and compression succeeds)
  succeeds, filling the lowest free slot with the new end offset, \<open>ts\<close> and
  \<open>len(payload)\<close>; \<open>BlocksUsed()\<close> then increases by exactly one, except that after
  the last slot (index 511) is filled \<open>BlocksUsed()\<close> returns \<open>-1\<close> and an error.
\<close>

theorem WriteTimedBlock_spec:
  "wellFormed f \<longrightarrow>
     (ts \<in> set (timestamps f) \<longrightarrow>
        fst (WriteTimedBlock enc fs f ts data) = Some (TimestampExists ts)) \<and>
     (ts \<notin> set (timestamps f) \<and> (\<forall>i<NumElements. \<not> emptySlot f i) \<longrightarrow>
        fst (WriteTimedBlock enc fs f ts data) = Some FileIsFull) \<and>
     (ts \<notin> set (timestamps f) \<and> k < NumElements \<and> emptySlot f k \<and> (\<forall>j<k. \<not> emptySlot f j) \<and>
      \<not> compressErr (Compress enc data) \<longrightarrow>
        fst (WriteTimedBlock enc (Some d) f ts data) = None \<and>
        blocks (fst (snd (WriteTimedBlock enc (Some d) f ts data))) =
          (blocks f)[k := seekPosOf f k + nWrite (Compress enc data)] \<and>
        timestamps (fst (snd (WriteTimedBlock enc (Some d) f ts data))) = (timestamps f)[k := ts] \<and>
        lengths (fst (snd (WriteTimedBlock enc (Some d) f ts data))) =
          (lengths f)[k := of_nat (length data)] \<and>
        BlocksUsed f = (int k, None) \<and>
        (k + 1 < NumElements \<longrightarrow>
           BlocksUsed (fst (snd (WriteTimedBlock enc (Some d) f ts data))) = (int k + 1, None)) \<and>
        (k + 1 = NumElements \<longrightarrow>
           BlocksUsed (fst (snd (WriteTimedBlock enc (Some d) f ts data))) =
             (- 1, Some CouldNotRetrieveBlocks)))"
proof (intro impI conjI)
  assume wf: "wellFormed f"
  {
    assume "ts \<in> set (timestamps f)"
    then show "fst (WriteTimedBlock enc fs f ts data) = Some (TimestampExists ts)"
      using WriteTimedBlock_duplicate[OF wf] by simp
  }
  {
    assume "ts \<notin> set (timestamps f) \<and> (\<forall>i<NumElements. \<not> emptySlot f i)"
    then show "fst (WriteTimedBlock enc fs f ts data) = Some FileIsFull"
      using WriteTimedBlock_file_full[OF wf] by simp
  }
  assume a: "ts \<notin> set (timestamps f) \<and> k < NumElements \<and> emptySlot f k \<and> (\<forall>j<k. \<not> emptySlot f j) \<and>
      \<not> compressErr (Compress enc data)"
  then have h: "ts \<notin> set (timestamps f)" "k < NumElements" "emptySlot f k" "\<forall>j<k. \<not> emptySlot f j"
    "\<not> compressErr (Compress enc data)" by blast+
  note S = WriteTimedBlock_success(1)[OF wf h, of d] WriteTimedBlock_success(2)[OF wf h]
    WriteTimedBlock_success(3)[OF wf h] WriteTimedBlock_success(4)[OF wf h]
  show "fst (WriteTimedBlock enc (Some d) f ts data) = None" by (simp add: S(1))
  show "blocks (fst (snd (WriteTimedBlock enc (Some d) f ts data))) =
          (blocks f)[k := seekPosOf f k + nWrite (Compress enc data)]"
    by (simp add: S(1) afterWrite_fields)
  show "timestamps (fst (snd (WriteTimedBlock enc (Some d) f ts data))) = (timestamps f)[k := ts]"
    by (simp add: S(1) afterWrite_fields)
  show "lengths (fst (snd (WriteTimedBlock enc (Some d) f ts data))) =
          (lengths f)[k := of_nat (length data)]"
    by (simp add: S(1) afterWrite_fields)
  show "BlocksUsed f = (int k, None)" by (rule S(2))
  {
    assume "k + 1 < NumElements"
    then show "BlocksUsed (fst (snd (WriteTimedBlock enc (Some d) f ts data))) = (int k + 1, None)"
      using S(3) by (simp add: S(1))
  }
  {
    assume "k + 1 = NumElements"
    then show "BlocksUsed (fst (snd (WriteTimedBlock enc (Some d) f ts data))) =
             (- 1, Some CouldNotRetrieveBlocks)"
      using S(4) by (simp add: S(1))
  }
qed

lemma used511:
  "wellFormed (usedFile 511)" "of_nat 512 \<notin> set (timestamps (usedFile 511))" "511 < NumElements"
  "emptySlot (usedFile 511) 511" "\<forall>j<511. \<not> emptySlot (usedFile 511) j"
  "511 + 1 = NumElements"
proof -
  have n: "511 \<le> NumElements" "511 < NumElements" "511 + 1 = NumElements"
    by (simp_all add: NumElements_def BufSize_def)
  show "wellFormed (usedFile 511)" using n(1) by (rule usedFile_wf)
  show "of_nat 512 \<notin> set (timestamps (usedFile 511))"
    using usedFile_mem[OF n(1), of 512] by simp
  show "511 < NumElements" "511 + 1 = NumElements" by (rule n)+
  show "emptySlot (usedFile 511) 511" using usedFile_empty[OF n(1) n(2)] by simp
  show "\<forall>j<511. \<not> emptySlot (usedFile 511) j"
    using usedFile_empty[OF n(1)] n(2) by auto
qed

theorem WriteTimedBlock_last_slot_counterexample:
  "fst (WriteTimedBlock tagEncoder disk511 (usedFile 511) 512 [7]) = None \<and>
   BlocksUsed (usedFile 511) = (511, None) \<and>
   BlocksUsed (fst (snd (WriteTimedBlock tagEncoder disk511 (usedFile 511) 512 [7]))) =
     (- 1, Some CouldNotRetrieveBlocks)"
proof -
  have t: "(of_nat 512 :: int64) = 512" by simp
  note h = used511(1,2,3,4,5) tagEncoder_ok[of "[7]"]
  note S = WriteTimedBlock_success(1)[OF h, of "replicate (BufSize * 3) 0 @ concat (replicate 511 [1, 7])", unfolded t]
    WriteTimedBlock_success(2)[OF h]
    WriteTimedBlock_success(3)[OF h, unfolded t]
    WriteTimedBlock_success(4)[OF h, unfolded t]
  show ?thesis
    using S(2) S(4)[OF used511(6)] by (simp add: S(1) disk511_def)
qed

theorem WriteTimedBlock_spec_witness:
  "fst (WriteTimedBlock tagEncoder None (usedFile 3) 1 [7]) = Some (TimestampExists 1) \<and>
   fst (WriteTimedBlock tagEncoder None (usedFile 512) 0 [7]) = Some FileIsFull \<and>
   fst (WriteTimedBlock tagEncoder (Some (replicate (BufSize * 3) 0 @ [1, 7, 1, 7, 1, 7])) (usedFile 3) 9 [7]) = None \<and>
   BlocksUsed (usedFile 3) = (3, None) \<and>
   BlocksUsed (fst (snd (WriteTimedBlock tagEncoder (Some (replicate (BufSize * 3) 0 @ [1, 7, 1, 7, 1, 7]))
      (usedFile 3) 9 [7]))) = (4, None)"
proof -
  have n: "3 \<le> NumElements" "512 \<le> NumElements" "3 < NumElements" "3 + 1 < NumElements"
    by (simp_all add: NumElements_def BufSize_def)
  have wf3: "wellFormed (usedFile 3)" and wf512: "wellFormed (usedFile 512)"
    using n usedFile_wf by blast+
  have m1: "1 \<in> set (timestamps (usedFile 3))"
    using usedFile_mem[OF n(1), of 1] by simp
  have m0: "0 \<notin> set (timestamps (usedFile 512))"
    using usedFile_mem[OF n(2), of 0] by (simp add: NumElements_def BufSize_def)
  have full: "\<forall>i<NumElements. \<not> emptySlot (usedFile 512) i"
    using usedFile_empty[OF n(2)] by (simp add: NumElements_def BufSize_def)
  have m9: "9 \<notin> set (timestamps (usedFile 3))"
    using usedFile_mem[OF n(1), of 9] by simp
  have e3: "emptySlot (usedFile 3) 3" "\<forall>j<3. \<not> emptySlot (usedFile 3) j"
    using usedFile_empty[OF n(1)] n(3) by auto
  have a: "fst (WriteTimedBlock tagEncoder None (usedFile 3) 1 [7]) = Some (TimestampExists 1)"
    using WriteTimedBlock_spec[where f = "usedFile 3" and ts = 1 and enc = tagEncoder and fs = None
        and data = "[7]"] wf3 m1 by blast
  have b: "fst (WriteTimedBlock tagEncoder None (usedFile 512) 0 [7]) = Some FileIsFull"
    using WriteTimedBlock_spec[where f = "usedFile 512" and ts = 0 and enc = tagEncoder and fs = None
        and data = "[7]"] wf512 m0 full by blast
  have c: "fst (WriteTimedBlock tagEncoder (Some (replicate (BufSize * 3) 0 @ [1, 7, 1, 7, 1, 7])) (usedFile 3) 9 [7]) = None \<and>
   BlocksUsed (usedFile 3) = (int 3, None) \<and>
   BlocksUsed (fst (snd (WriteTimedBlock tagEncoder (Some (replicate (BufSize * 3) 0 @ [1, 7, 1, 7, 1, 7]))
      (usedFile 3) 9 [7]))) = (int 3 + 1, None)"
    using WriteTimedBlock_spec[where f = "usedFile 3" and ts = 9 and enc = tagEncoder
        and data = "[7]" and k = 3 and d = "replicate (BufSize * 3) 0 @ [1, 7, 1, 7, 1, 7]"]
      wf3 m9 e3 n(3,4) tagEncoder_ok[of "[7]"] by blast
  from a b c show ?thesis by simp
qed


lemma dataOf_bound:
  assumes "codec enc" "payloadsOk ws"
  shows "length (dataOf enc ws) \<le> length ws * 2 ^ 53"
  using assms(2)
proof (induction ws)
  case Nil
  show ?case by (simp add: dataOf_def)
next
  case (Cons w ws)
  have "length (compressed enc (snd w)) < 2 ^ 53"
    using assms(1) Cons.prems unfolding codec_def payloadsOk_def by simp
  moreover have "length (dataOf enc ws) \<le> length ws * 2 ^ 53"
    using Cons by (simp add: payloadsOk_def)
  ultimately show ?case by (simp add: dataOf_def)
qed

lemma payloadsOk_take: "payloadsOk ws \<Longrightarrow> payloadsOk (take k ws)"
  unfolding payloadsOk_def by (meson in_set_takeD)

lemma endOff_bound:
  assumes "codec enc" "payloadsOk ws" "length ws \<le> NumElements"
  shows "endOff enc ws k < 2 ^ 63"
proof -
  have "length (dataOf enc (take k ws)) \<le> length (take k ws) * 2 ^ 53"
    using assms(1) payloadsOk_take[OF assms(2)] by (rule dataOf_bound)
  also have "\<dots> \<le> 512 * 2 ^ 53"
    using assms(3) by (simp add: NumElements_def BufSize_def)
  finally show ?thesis by (simp add: endOff_def BufSize_def)
qed

lemma endOff_0: "endOff enc ws 0 = BufSize * 3"
  by (simp add: endOff_def dataOf_def)

lemma endOff_Suc:
  "k < length ws \<Longrightarrow> endOff enc ws (Suc k) = endOff enc ws k + length (compressed enc (snd (ws ! k)))"
  by (simp add: endOff_def dataOf_def take_Suc_conv_app_nth)

lemma endOff_append: "k \<le> length ws \<Longrightarrow> endOff enc (ws @ [x]) k = endOff enc ws k"
  by (simp add: endOff_def)

lemma endOff_all: "endOff enc ws (length ws) = BufSize * 3 + length (dataOf enc ws)"
  by (simp add: endOff_def)

lemma byteOf_zero: "byteOf 0 j = 0"
  by (simp add: byteOf_def)

lemma headerOf_emptyFile: "headerOf emptyFile NumElements (replicate (BufSize * 3) 0)"
  unfolding headerOf_def
  by (auto simp: emptyFile_def byteOf_zero NumElements_def BufSize_def)

lemma written_inv_empty: "written_inv enc [] emptyFile (Some (replicate (BufSize * 3) 0))"
  unfolding written_inv_def
  using headerOf_emptyFile sized_emptyFile
  by (auto simp: dataOf_def emptyFile_def)

lemma update_padded:
  "length xs = m \<Longrightarrow> m < n \<Longrightarrow>
   (xs @ replicate (n - m) z)[m := v] = (xs @ [v]) @ replicate (n - Suc m) z"
proof -
  assume a: "length xs = m" "m < n"
  then obtain d where d: "n - m = Suc d" "n - Suc m = d" by (metis Suc_diff_Suc)
  show ?thesis using a by (simp add: d list_update_append)
qed

lemma padded_nth:
  "length xs = m \<Longrightarrow> j < m \<Longrightarrow> (xs @ replicate k z) ! j = xs ! j"
  "length xs = m \<Longrightarrow> m \<le> j \<Longrightarrow> j < m + k \<Longrightarrow> (xs @ replicate k z) ! j = z"
  by (simp_all add: nth_append)

lemma dataOf_snoc: "dataOf enc (ws @ [(ts, p)]) = dataOf enc ws @ compressed enc p"
  by (simp add: dataOf_def)

lemma inv_seekPos:
  assumes inv: "written_inv enc ws f fs" and k: "k \<le> length ws" "k < NumElements"
  shows "seekPosOf f k = of_nat (endOff enc ws k)"
proof (cases "k = 0")
  case True
  then show ?thesis by (simp add: seekPosOf_def endOff_0)
next
  case False
  then have k1: "k - 1 < length ws" "Suc (k - 1) = k" using k by simp_all
  have "blocks f ! (k - 1) = of_nat (endOff enc ws (Suc (k - 1)))"
    using inv k1(1) unfolding written_inv_def by (simp add: nth_append)
  then show ?thesis using False k1(2) by (simp add: seekPosOf_def)
qed

lemma inv_step:
  assumes cd: "codec enc" and inv: "written_inv enc ws f fs" and m: "length ws < NumElements"
    and ts: "ts \<noteq> 0" "ts \<notin> set (map fst ws)" and nz: "\<forall>t\<in>set (map fst ws). t \<noteq> 0"
    and pl: "payloadsOk (ws @ [(ts, p)])"
  shows "\<exists>f' fs'. WriteTimedBlock enc fs f ts p = (None, f', fs') \<and>
           written_inv enc (ws @ [(ts, p)]) f' fs'"
proof -
  let ?m = "length ws"
  let ?ws' = "ws @ [(ts, p)]"
  from inv obtain hdr where
    sz: "sized f"
    and T: "timestamps f = map fst ws @ replicate (NumElements - ?m) 0"
    and L: "lengths f = map (\<lambda>w. of_nat (length (snd w))) ws @ replicate (NumElements - ?m) 0"
    and B: "blocks f = map (\<lambda>k. of_nat (endOff enc ws (Suc k))) [0..<?m] @ replicate (NumElements - ?m) 0"
    and H: "headerOf f NumElements hdr" and FS: "fs = Some (hdr @ dataOf enc ws)"
    and C: "curFile f = Some (BufSize * 3)" and S: "lastSeekPos f = 0"
    unfolding written_inv_def by blast
  have tm: "timestamps f ! ?m = 0"
    unfolding T using m by (simp add: nth_append)
  have tj: "\<And>j. j < ?m \<Longrightarrow> timestamps f ! j = fst (ws ! j)"
    unfolding T by (simp add: nth_append)
  have "\<forall>j. 0 \<le> j \<and> j < ?m \<longrightarrow> timestamps f ! j \<noteq> ts \<and> timestamps f ! j \<noteq> 0"
  proof (intro allI impI)
    fix j assume "0 \<le> j \<and> j < ?m"
    then have j: "j < ?m" by simp
    then have "fst (ws ! j) \<in> set (map fst ws)" by (metis length_map nth_map nth_mem)
    then show "timestamps f ! j \<noteq> ts \<and> timestamps f ! j \<noteq> 0"
      using ts(2) nz tj[OF j] by auto
  qed
  then have F: "findSlot f ts 0 = Inr (?m, seekPosOf f ?m)"
    using m tm ts(1) by (intro findSlot_free) simp_all
  have sp: "seekPosOf f ?m = of_nat (endOff enc ws ?m)"
    using inv m by (intro inv_seekPos) simp_all
  have pw: "payloadsOk ws" using pl by (simp add: payloadsOk_def)
  have lw: "length ws \<le> NumElements" "length ?ws' \<le> NumElements" using m by simp_all
  have n1: "seekPosOf f ?m \<noteq> - 1"
    unfolding sp using endOff_bound[OF cd pw lw(1)] by (rule not_m1_64)
  have ce: "\<not> compressErr (Compress enc p)" using cd by (simp add: codec_def)
  have nw: "nWrite (Compress enc p) = of_nat (length (compressed enc p))"
    using cd by (simp add: codec_def)
  let ?off = "of_nat (endOff enc ?ws' (Suc ?m)) :: int64"
  have off: "seekPosOf f ?m + nWrite (Compress enc p) = ?off"
    unfolding sp nw using endOff_Suc[of ?m ?ws' enc] endOff_append[of ?m ws enc "(ts, p)"]
    by simp
  let ?g = "afterWrite f ?m ?off ts (length p)"
  have W: "WriteTimedBlock enc fs f ts p =
     (None, ?g, Some (wBuf ?g @ drop (length (wBuf ?g)) ((hdr @ dataOf enc ws) @ written (Compress enc p))))"
    unfolding FS using WriteTimedBlock_ok[OF F n1 ce, of "hdr @ dataOf enc ws"] off by simp
  have sg: "sized ?g" and hg: "headerOf ?g NumElements (wBuf ?g)"
    using afterWrite_header[OF sz] by blast+
  have lh: "length hdr = BufSize * 3" "length (wBuf ?g) = BufSize * 3"
    using H hg by (simp_all add: headerOf_def)
  have fs': "wBuf ?g @ drop (length (wBuf ?g)) ((hdr @ dataOf enc ws) @ written (Compress enc p)) =
     wBuf ?g @ dataOf enc ?ws'"
    using lh by (simp add: dataOf_snoc compressed_def)
  have Tg: "timestamps ?g = map fst ?ws' @ replicate (NumElements - length ?ws') 0"
    unfolding afterWrite_fields T using update_padded[of "map fst ws" ?m NumElements 0 ts] m by simp
  have Lg: "lengths ?g = map (\<lambda>w. of_nat (length (snd w))) ?ws' @ replicate (NumElements - length ?ws') 0"
    unfolding afterWrite_fields L
    using update_padded[of "map (\<lambda>w. of_nat (length (snd w))) ws" ?m NumElements 0 "of_nat (length p)"] m
    by simp
  have bm: "map (\<lambda>k. of_nat (endOff enc ?ws' (Suc k)) :: int64) [0..<?m] =
            map (\<lambda>k. of_nat (endOff enc ws (Suc k))) [0..<?m]"
    by (intro map_cong refl) (simp add: endOff_append)
  have Bg: "blocks ?g = map (\<lambda>k. of_nat (endOff enc ?ws' (Suc k))) [0..<length ?ws'] @
                replicate (NumElements - length ?ws') 0"
    unfolding afterWrite_fields B
    using update_padded[of "map (\<lambda>k. of_nat (endOff enc ws (Suc k)) :: int64) [0..<?m]" ?m NumElements 0 ?off] m
    by (simp add: bm)
  have "written_inv enc ?ws' ?g (Some (wBuf ?g @ dataOf enc ?ws'))"
    unfolding written_inv_def
    using lw(2) sg Tg Lg Bg hg C S by (auto simp: afterWrite_fields)
  then show ?thesis using W fs' by simp
qed

lemma writeAll_inv:
  assumes cd: "codec enc"
  shows "written_inv enc ws f fs \<Longrightarrow> distinct (map fst (ws @ rest)) \<Longrightarrow>
     \<forall>t\<in>set (map fst (ws @ rest)). t \<noteq> 0 \<Longrightarrow> length (ws @ rest) \<le> NumElements \<Longrightarrow>
     payloadsOk (ws @ rest) \<Longrightarrow>
     \<exists>f' fs'. writeAll enc fs f rest = (None, f', fs') \<and> written_inv enc (ws @ rest) f' fs'"
proof (induction rest arbitrary: ws f fs)
  case Nil
  then show ?case by simp
next
  case (Cons x rest)
  obtain ts p where x: "x = (ts, p)" by (cases x)
  have e: "ws @ x # rest = (ws @ [(ts, p)]) @ rest" using x by simp
  have m: "length ws < NumElements" using Cons.prems(4) by simp
  have ts: "ts \<noteq> 0" "ts \<notin> set (map fst ws)" "\<forall>t\<in>set (map fst ws). t \<noteq> 0"
    using Cons.prems(2,3) x by auto
  have pl: "payloadsOk (ws @ [(ts, p)])"
    using Cons.prems(5) x by (auto simp: payloadsOk_def)
  from inv_step[OF cd Cons.prems(1) m ts pl]
  obtain f1 fs1 where W: "WriteTimedBlock enc fs f ts p = (None, f1, fs1)"
    and I: "written_inv enc (ws @ [(ts, p)]) f1 fs1" by blast
  have "\<exists>f' fs'. writeAll enc fs1 f1 rest = (None, f', fs') \<and>
          written_inv enc ((ws @ [(ts, p)]) @ rest) f' fs'"
    using Cons.prems(2-5) unfolding e by (intro Cons.IH[OF I])
  then show ?case unfolding e using W x by simp
qed

lemma ReadTimedBlockLoop_found:
  "i \<le> k \<Longrightarrow> k < NumElements \<Longrightarrow> timestamps f ! k = ts \<Longrightarrow>
   (\<forall>j. i \<le> j \<and> j < k \<longrightarrow> timestamps f ! j \<noteq> ts) \<Longrightarrow>
   ReadTimedBlockLoop enc fs f ts i = ReadBlock enc fs f (int k)"
proof (induction "k - i" arbitrary: i)
  case 0
  then have "i = k" by simp
  then show ?case using 0 by (subst ReadTimedBlockLoop.simps) simp
next
  case (Suc n)
  then have ne: "timestamps f ! i \<noteq> ts" and lt: "i < NumElements" by auto
  have "ReadTimedBlockLoop enc fs f ts (i + 1) = ReadBlock enc fs f (int k)"
    using Suc by (intro Suc.hyps(1)) auto
  then show ?case using ne lt by (subst ReadTimedBlockLoop.simps) simp
qed

lemma dataOf_split: "k \<le> length ws \<Longrightarrow> dataOf enc ws = dataOf enc (take k ws) @ dataOf enc (drop k ws)"
  unfolding dataOf_def by (metis append_take_drop_id concat_append map_append)

lemma dataOf_drop:
  "k < length ws \<Longrightarrow> dataOf enc (drop k ws) = compressed enc (snd (ws ! k)) @ dataOf enc (drop (Suc k) ws)"
  unfolding dataOf_def by (simp add: Cons_nth_drop_Suc[symmetric])

lemma readLenOf_alt: "readLenOf f k = blocks f ! k - seekPosOf f k"
  by (simp add: readLenOf_def seekPosOf_def)

lemma pad_exact: "take (length p) (p @ replicate n z) = p"
  by simp

lemma inv_read:
  assumes cd: "codec enc" and inv: "written_inv enc ws f fs"
    and dist: "distinct (map fst ws)" and nz: "\<forall>t\<in>set (map fst ws). t \<noteq> 0"
    and pl: "payloadsOk ws" and k: "k < length ws"
  shows "fst (ReadTimedBlock enc fs f (fst (ws ! k))) = Inr (snd (ws ! k))"
proof -
  let ?m = "length ws"
  let ?p = "snd (ws ! k)"
  let ?c = "compressed enc ?p"
  from inv obtain hdr where
    lw: "?m \<le> NumElements" and sz: "sized f"
    and T: "timestamps f = map fst ws @ replicate (NumElements - ?m) 0"
    and L: "lengths f = map (\<lambda>w. of_nat (length (snd w))) ws @ replicate (NumElements - ?m) 0"
    and B: "blocks f = map (\<lambda>k. of_nat (endOff enc ws (Suc k))) [0..<?m] @ replicate (NumElements - ?m) 0"
    and H: "headerOf f NumElements hdr" and FS: "fs = Some (hdr @ dataOf enc ws)"
    and C: "curFile f = Some (BufSize * 3)" and S: "lastSeekPos f = 0"
    unfolding written_inv_def by blast
  have kN: "k < NumElements" using k lw by simp
  have tj: "\<And>j. j < ?m \<Longrightarrow> timestamps f ! j = fst (ws ! j)"
    unfolding T by (simp add: nth_append)
  have tk: "timestamps f ! k = fst (ws ! k)" using tj k by simp
  have "\<forall>j. 0 \<le> j \<and> j < k \<longrightarrow> timestamps f ! j \<noteq> fst (ws ! k)"
  proof (intro allI impI)
    fix j assume "0 \<le> j \<and> j < k"
    then have j: "j < k" "j < ?m" using k by simp_all
    have "map fst ws ! j \<noteq> map fst ws ! k"
      using nth_eq_iff_index_eq[OF dist, of j k] j k by simp
    then show "timestamps f ! j \<noteq> fst (ws ! k)" using tj[OF j(2)] j k by simp
  qed
  then have R: "ReadTimedBlock enc fs f (fst (ws ! k)) = ReadBlock enc fs f (int k)"
    unfolding ReadTimedBlock_def using kN tk by (intro ReadTimedBlockLoop_found) simp_all
  have "fst (ws ! k) \<in> set (map fst ws)" using k by (metis length_map nth_map nth_mem)
  then have tnz: "timestamps f ! k \<noteq> 0" using nz tk by auto
  then have ne: "\<not> emptySlot f k" by (simp add: emptySlot_def)
  have eb: "endOff enc ws k < 2 ^ 63" "endOff enc ws (Suc k) < 2 ^ 63"
    using endOff_bound[OF cd pl lw] by blast+
  have sp: "seekPosOf f k = of_nat (endOff enc ws k)"
    using inv k kN by (intro inv_seekPos) simp_all
  have bk: "blocks f ! k = of_nat (endOff enc ws (Suc k))"
    unfolding B using k by (simp add: nth_append)
  have pk: "length ?p \<le> 2 ^ 31" using pl k by (simp add: payloadsOk_def)
  have cl: "length ?c < 2 ^ 53" using cd pk by (simp add: codec_def)
  have rl: "readLenOf f k = of_nat (length ?c)"
    unfolding readLenOf_alt sp bk endOff_Suc[OF k] by simp
  have lk: "lengths f ! k = of_nat (length ?p)"
    unfolding L using k by (simp add: nth_append)
  have c63: "length ?c < 2 ^ 63" "length ?c < 2 ^ 64" "length ?p < 2 ^ 63" "length ?p < 2 ^ 64"
    "endOff enc ws k < 2 ^ 64"
    using cl pk eb(1) by simp_all
  have pos: "0 < endOff enc ws k" by (simp add: endOff_def BufSize_def)
  have spnz: "seekPosOf f k \<noteq> lastSeekPos f"
    unfolding sp S using of_nat_eq64[OF c63(5), of 0] pos by simp
  have rd: "readable fs f k"
    unfolding readable_def sp rl lk
    using C not_neg64[OF eb(1)] not_neg64[OF c63(1)] not_neg64[OF c63(3)] by simp
  have ro: "readOffset f k = endOff enc ws k"
    unfolding readOffset_def using spnz by (simp add: sp unat_of_nat64[OF c63(5)])
  have lh: "length hdr = BufSize * 3" using H by (simp add: headerOf_def)
  have "drop (endOff enc ws k) (hdr @ dataOf enc ws) = dataOf enc (drop k ws)"
    using dataOf_split[of k ws enc] k lh by (simp add: endOff_def)
  then have src: "drop (readOffset f k) (case fs of None \<Rightarrow> [] | Some d \<Rightarrow> d) =
     ?c @ dataOf enc (drop (Suc k) ws)"
    unfolding ro FS using dataOf_drop[OF k, of enc] by simp
  have dc: "decompressCall enc fs f k =
      Decompress enc (length ?c) (length ?p) (?c @ dataOf enc (drop (Suc k) ws))"
    unfolding decompressCall_def src rl lk
    by (simp add: unat_of_nat64[OF c63(2)] unat_of_nat64[OF c63(4)])
  have u: "uncompLen (decompressCall enc fs f k) = readLenOf f k"
    unfolding dc rl using cd by (simp add: codec_def)
  have o: "outBytes (decompressCall enc fs f k) = ?p"
    unfolding dc using cd by (simp add: codec_def)
  have "fst (ReadBlock enc fs f (int k)) = Inr ?p"
    unfolding ReadBlock_eq[OF kN sz ne rd] o lk
    using u by (simp add: unat_of_nat64[OF c63(4)])
  then show ?thesis using R by simp
qed

lemma inv_reopen:
  assumes inv: "written_inv enc ws f fs"
  shows "\<exists>g. NewGPFile fs = (Inr g, fs) \<and> written_inv enc ws g fs"
proof -
  from inv obtain hdr where
    lw: "length ws \<le> NumElements" and sz: "sized f"
    and H: "headerOf f NumElements hdr" and FS: "fs = Some (hdr @ dataOf enc ws)"
    unfolding written_inv_def by blast
  let ?g = "\<lparr>blocks = blocks f, timestamps = timestamps f, lengths = lengths f,
           curFile = Some (BufSize * 3), wBuf = replicate (BufSize * 3) 0, lastSeekPos = 0\<rparr>"
  have s: "length (blocks f) = NumElements" "length (timestamps f) = NumElements"
    "length (lengths f) = NumElements"
    using sz by (simp_all add: sized_def)
  have N: "NewGPFile fs = (Inr ?g, fs)"
    unfolding FS by (rule NewGPFile_reopen[OF s H])
  have hg: "headerOf ?g NumElements hdr"
    using H by (simp add: headerOf_def)
  have "written_inv enc ws ?g fs"
    using inv hg FS s unfolding written_inv_def by (auto simp: sized_def)
  then show ?thesis using N by blast
qed

lemma strictly_increasing_distinct:
  "sorted_wrt (\<lambda>a b. a <s b) (xs :: int64 list) \<Longrightarrow> distinct xs"
proof (induction xs)
  case Nil
  show ?case by simp
next
  case (Cons x xs)
  then have "\<forall>y\<in>set xs. x <s y" and "distinct xs" by simp_all
  moreover have "\<not> x <s x" by (simp add: word_sless_alt)
  ultimately show ?case by auto
qed

text \<open>
  The round trip where it holds: on a file created by \<open>NewGPFile\<close>, with an encoder that
  meets its contract, after the blocks have been written in sequence, the first
  \<open>ReadTimedBlock\<close> on the resulting object, or on the object that reopening gives,
  returns the payload.
\<close>

theorem write_read_roundtrip:
  assumes "codec enc"
    and "sorted_wrt (\<lambda>a b. a <s b) (map fst ws)"
    and "\<forall>t\<in>set (map fst ws). t \<noteq> 0"
    and "length ws \<le> 512"
    and "\<forall>w\<in>set ws. length (snd w) \<le> 2 ^ 31"
    and "(ts, p) \<in> set ws"
  shows "\<exists>f0 fs0 f fs g.
     NewGPFile None = (Inr f0, fs0) \<and> writeAll enc fs0 f0 ws = (None, f, fs) \<and>
     fst (ReadTimedBlock enc fs f ts) = Inr p \<and>
     NewGPFile fs = (Inr g, fs) \<and> fst (ReadTimedBlock enc fs g ts) = Inr p"
proof -
  have dist: "distinct (map fst ws)" using assms(2) by (rule strictly_increasing_distinct)
  have lw: "length ws \<le> NumElements" using assms(4) by (simp add: NumElements_def BufSize_def)
  have pl: "payloadsOk ws" using assms(5) by (simp add: payloadsOk_def)
  from writeAll_inv[OF assms(1) written_inv_empty, of ws] dist assms(3) lw pl
  obtain f fs where W: "writeAll enc (Some (replicate (BufSize * 3) 0)) emptyFile ws = (None, f, fs)"
    and I: "written_inv enc ws f fs" by auto
  from inv_reopen[OF I] obtain g where G: "NewGPFile fs = (Inr g, fs)" and IG: "written_inv enc ws g fs"
    by blast
  from assms(6) obtain k where k: "k < length ws" "ws ! k = (ts, p)"
    by (auto simp: in_set_conv_nth)
  have "fst (ReadTimedBlock enc fs f ts) = Inr p"
    using inv_read[OF assms(1) I dist assms(3) pl k(1)] k(2) by simp
  moreover have "fst (ReadTimedBlock enc fs g ts) = Inr p"
    using inv_read[OF assms(1) IG dist assms(3) pl k(1)] k(2) by simp
  ultimately show ?thesis using NewGPFile_None W G by blast
qed

lemma codec_tagEncoder: "codec tagEncoder"
  unfolding codec_def compressed_def
  by (simp add: tagEncoder_def)

theorem write_read_roundtrip_witness:
  "\<exists>f0 fs0 f fs g.
     NewGPFile None = (Inr f0, fs0) \<and>
     writeAll tagEncoder fs0 f0 [(1000, [1, 2, 3]), (2000, [4, 5])] = (None, f, fs) \<and>
     fst (ReadTimedBlock tagEncoder fs f 2000) = Inr [4, 5] \<and>
     NewGPFile fs = (Inr g, fs) \<and> fst (ReadTimedBlock tagEncoder fs g 2000) = Inr [4, 5]"
proof -
  have a: "sorted_wrt (\<lambda>a b. a <s b) (map fst [(1000 :: int64, [1, 2, 3 :: byte]), (2000, [4, 5])])"
    by (simp add: word_sless_alt)
  have b: "\<forall>t\<in>set (map fst [(1000 :: int64, [1, 2, 3 :: byte]), (2000, [4, 5])]). t \<noteq> 0"
    by simp
  have c: "length [(1000 :: int64, [1, 2, 3 :: byte]), (2000, [4, 5])] \<le> 512" by simp
  have d: "\<forall>w\<in>set [(1000 :: int64, [1, 2, 3 :: byte]), (2000, [4, 5])]. length (snd w) \<le> 2 ^ 31"
    by simp
  have e: "(2000, [4, 5]) \<in> set [(1000 :: int64, [1, 2, 3 :: byte]), (2000, [4, 5])]" by simp
  show ?thesis by (rule write_read_roundtrip[OF codec_tagEncoder a b c d e])
qed


lemma ReadBlock_state:
  assumes b: "b < NumElements" and sz: "sized f" and ne: "\<not> emptySlot f b" and rd: "readable fs f b"
  shows "snd (ReadBlock enc fs f (int b)) =
     f\<lparr>curFile := Some (readOffset f b +
            min (consumed (decompressCall enc fs f b))
                (length (drop (readOffset f b) (case fs of None \<Rightarrow> [] | Some d \<Rightarrow> d)))),
       lastSeekPos := seekPosOf f b\<rparr>"
proof -
  have rng: "\<not> (int b < 0 \<or> int (length (timestamps f)) \<le> int b \<or> int (length (blocks f)) \<le> int b
         \<or> int (length (lengths f)) \<le> int b)"
    using b sz by (simp add: sized_def)
  have ne': "\<not> (timestamps f ! b = 0 \<and> blocks f ! b = 0 \<and> lengths f ! b = 0)"
    using ne by (simp add: emptySlot_def)
  obtain off where off: "(case curFile f of Some off \<Rightarrow> Some off
                 | None \<Rightarrow> (case fs of None \<Rightarrow> None | Some d \<Rightarrow> Some 0)) = Some off"
    and off': "off = (case curFile f of Some off \<Rightarrow> off | None \<Rightarrow> 0)"
    using rd by (auto simp: readable_def split: option.splits)
  have u: "\<And>g. seekPosOf (f\<lparr>curFile := g\<rparr>) b = seekPosOf f b"
    "\<And>g. readLenOf (f\<lparr>curFile := g\<rparr>) b = readLenOf f b"
    by (simp_all add: seekPosOf_def readLenOf_def)
  show ?thesis
    unfolding ReadBlock_def
    apply (simp only: rng if_False Let_def nat_int ne' off option.case u)
    using rd off'
    apply (auto simp add: readable_def decompressCall_def readOffset_def)
    done
qed

lemma ReadTimedBlock_first:
  "0 < NumElements \<Longrightarrow> timestamps f ! 0 = ts \<Longrightarrow>
   ReadTimedBlock enc fs f ts = ReadBlock enc fs f (int 0)"
  unfolding ReadTimedBlock_def by (intro ReadTimedBlockLoop_found) simp_all

lemma twoBlocks_state:
  obtains f hdr where
    "twoBlocks = (None, f, Some (hdr @ [1, 1, 2, 3, 1, 4, 5, 6]))"
    "length hdr = BufSize * 3" "sized f"
    "timestamps f ! 0 = 1000" "blocks f ! 0 = of_nat (BufSize * 3) + 4" "lengths f ! 0 = 3"
    "curFile f = Some (BufSize * 3)" "lastSeekPos f = 0"
proof -
  let ?ws = "[(1000 :: int64, [1, 2, 3 :: byte]), (2000, [4, 5, 6])]"
  have d: "distinct (map fst ([] @ ?ws))" by simp
  have z: "\<forall>t\<in>set (map fst ([] @ ?ws)). t \<noteq> 0" by simp
  have l: "length ([] @ ?ws) \<le> NumElements" by (simp add: NumElements_def BufSize_def)
  have p: "payloadsOk ([] @ ?ws)" by (simp add: payloadsOk_def)
  from writeAll_inv[OF codec_tagEncoder written_inv_empty d z l p]
  obtain f fs where W: "twoBlocks = (None, f, fs)" and I: "written_inv tagEncoder ?ws f fs"
    unfolding twoBlocks_def by auto
  from I obtain hdr where
    sz: "sized f"
    and T: "timestamps f = map fst ?ws @ replicate (NumElements - length ?ws) 0"
    and L: "lengths f = map (\<lambda>w. of_nat (length (snd w))) ?ws @ replicate (NumElements - length ?ws) 0"
    and B: "blocks f = map (\<lambda>k. of_nat (endOff tagEncoder ?ws (Suc k))) [0..<length ?ws] @
                replicate (NumElements - length ?ws) 0"
    and H: "headerOf f NumElements hdr" and FS: "fs = Some (hdr @ dataOf tagEncoder ?ws)"
    and C: "curFile f = Some (BufSize * 3)" and S: "lastSeekPos f = 0"
    unfolding written_inv_def by blast
  have dd: "dataOf tagEncoder ?ws = [1, 1, 2, 3, 1, 4, 5, 6]"
    by (simp add: dataOf_def compressed_def tagEncoder_def)
  have e1: "endOff tagEncoder ?ws (Suc 0) = BufSize * 3 + 4"
    by (simp add: endOff_def dataOf_def compressed_def tagEncoder_def)
  have u: "[0..<length ?ws] = [0, Suc 0]" by (simp add: upt_rec)
  show ?thesis
  proof (rule that[of f hdr])
    show "twoBlocks = (None, f, Some (hdr @ [1, 1, 2, 3, 1, 4, 5, 6]))"
      using W FS dd by simp
    show "length hdr = BufSize * 3" using H by (simp add: headerOf_def)
    show "sized f" by (rule sz)
    show "timestamps f ! 0 = 1000" unfolding T by simp
    show "blocks f ! 0 = of_nat (BufSize * 3) + 4" unfolding B u by (simp add: e1)
    show "lengths f ! 0 = 3" unfolding L by simp
    show "curFile f = Some (BufSize * 3)" by (rule C)
    show "lastSeekPos f = 0" by (rule S)
  qed
qed

lemma dT: "Decompress tagEncoder 4 3 [1, 1, 2, 3, 1, 4, 5, 6] =
    \<lparr>uncompLen = 4, decompressErr = False, outBytes = [1, 2, 3], consumed = 4\<rparr>"
  "Decompress tagEncoder 4 3 [1, 4, 5, 6] =
    \<lparr>uncompLen = 4, decompressErr = False, outBytes = [4, 5, 6], consumed = 4\<rparr>"
  by (simp_all add: tagEncoder_def)

lemma pad3: "take 3 ([a, b, c :: byte] @ replicate 3 0) = [a, b, c]"
  by (simp add: eval_nat_numeral)

text \<open>
  Claim C1. For every payload of at most \<open>2^31\<close> bytes and every strictly increasing
  sequence of at most 512 nonzero timestamps, calling \<open>WriteTimedBlock(ts, payload)\<close> for
  each timestamp and then \<open>ReadTimedBlock(ts)\<close> on the same (or a reopened) file object
  returns the original payload. The code at a failing input: two blocks are written to a
  fresh file at timestamps 1000 and 2000; the first \<open>ReadTimedBlock(1000)\<close> returns the
  payload of block 1000, and the same call made again returns the payload of block 2000.
  \<open>ReadBlock\<close> keeps in \<open>lastSeekPos\<close> the start of the block it has read while the
  handle has moved to the block's end, so the second call finds the seek position
  unchanged, does not seek, and reads on from where the handle stands.
\<close>

theorem reread_returns_next_block:
  "NewGPFile None = (Inr emptyFile, Some (replicate (BufSize * 3) 0)) \<and>
   fst twoBlocks = None \<and>
   fst (ReadTimedBlock tagEncoder (snd (snd twoBlocks)) (fst (snd twoBlocks)) 1000) = Inr [1, 2, 3] \<and>
   fst (ReadTimedBlock tagEncoder (snd (snd twoBlocks))
          (snd (ReadTimedBlock tagEncoder (snd (snd twoBlocks)) (fst (snd twoBlocks)) 1000)) 1000) =
     Inr [4, 5, 6]"
proof -
  obtain f hdr where W: "twoBlocks = (None, f, Some (hdr @ [1, 1, 2, 3, 1, 4, 5, 6]))"
    and lh: "length hdr = BufSize * 3" and sz: "sized f"
    and t0: "timestamps f ! 0 = 1000" and b0: "blocks f ! 0 = of_nat (BufSize * 3) + 4"
    and l0: "lengths f ! 0 = 3"
    and C: "curFile f = Some (BufSize * 3)" and S: "lastSeekPos f = 0"
    by (rule twoBlocks_state)
  let ?fs = "Some (hdr @ [1, 1, 2, 3, 1, 4, 5, 6 :: byte])"
  have n0: "0 < NumElements" by (simp add: NumElements_def BufSize_def)
  have ne: "\<not> emptySlot f 0" using t0 by (simp add: emptySlot_def)
  have sp: "seekPosOf f 0 = of_nat (BufSize * 3)" by (simp add: seekPosOf_def)
  have rl: "readLenOf f 0 = 4" by (simp add: readLenOf_def b0)
  have ro: "readOffset f 0 = BufSize * 3"
    by (simp add: readOffset_def sp S BufSize_def)
  have rd: "readable ?fs f 0"
    by (simp add: readable_def sp rl l0 C BufSize_def word_sless_alt)
  have dc: "decompressCall tagEncoder ?fs f 0 = Decompress tagEncoder 4 3 [1, 1, 2, 3, 1, 4, 5, 6]"
    by (simp add: decompressCall_def ro rl l0 lh)
  have r1: "fst (ReadBlock tagEncoder ?fs f (int 0)) = Inr [1, 2, 3]"
    unfolding ReadBlock_eq[OF n0 sz ne rd] dc dT rl l0 using pad3[of 1 2 3] by simp
  define f2 where "f2 = f\<lparr>curFile := Some (BufSize * 3 + 4), lastSeekPos := of_nat (BufSize * 3)\<rparr>"
  have s1: "snd (ReadBlock tagEncoder ?fs f (int 0)) = f2"
    unfolding ReadBlock_state[OF n0 sz ne rd] dc dT ro sp f2_def by (simp add: lh)
  have f2: "timestamps f2 = timestamps f" "blocks f2 = blocks f" "lengths f2 = lengths f"
    "curFile f2 = Some (BufSize * 3 + 4)" "lastSeekPos f2 = of_nat (BufSize * 3)"
    "wBuf f2 = wBuf f"
    by (simp_all add: f2_def)
  have sz2: "sized f2" using sz by (simp add: sized_def f2)
  have ne2: "\<not> emptySlot f2 0" using ne by (simp add: emptySlot_def f2)
  have sp2: "seekPosOf f2 0 = of_nat (BufSize * 3)" by (simp add: seekPosOf_def)
  have rl2: "readLenOf f2 0 = 4" by (simp add: readLenOf_def b0 f2)
  have ro2: "readOffset f2 0 = BufSize * 3 + 4"
    unfolding readOffset_def sp2 f2 by simp
  have rd2: "readable ?fs f2 0"
    unfolding readable_def sp2 rl2 f2 by (simp add: l0 word_sless_alt)
  have dc2: "decompressCall tagEncoder ?fs f2 0 = Decompress tagEncoder 4 3 [1, 4, 5, 6]"
    unfolding decompressCall_def ro2 rl2 f2 l0 by (simp add: lh)
  have r2: "fst (ReadBlock tagEncoder ?fs f2 (int 0)) = Inr [4, 5, 6]"
    unfolding ReadBlock_eq[OF n0 sz2 ne2 rd2] dc2 dT rl2 f2 l0 using pad3[of 4 5 6] by simp
  have q1: "ReadTimedBlock tagEncoder ?fs f 1000 = ReadBlock tagEncoder ?fs f (int 0)"
    using n0 t0 by (rule ReadTimedBlock_first)
  have q2: "ReadTimedBlock tagEncoder ?fs f2 1000 = ReadBlock tagEncoder ?fs f2 (int 0)"
    using n0 t0 by (intro ReadTimedBlock_first) (simp_all add: f2)
  show ?thesis
    unfolding W fst_conv snd_conv q1 s1 q2 using NewGPFile_None r1 r2 by simp
qed

lemma NewGPFile_trailing: "NewGPFile trailingDisk = (Inr emptyFile, trailingDisk)"
proof -
  have s: "length (blocks emptyFile) = NumElements" "length (timestamps emptyFile) = NumElements"
    "length (lengths emptyFile) = NumElements"
    using sized_emptyFile by (simp_all add: sized_def)
  have e: "\<lparr>blocks = blocks emptyFile, timestamps = timestamps emptyFile, lengths = lengths emptyFile,
           curFile = Some (BufSize * 3), wBuf = replicate (BufSize * 3) 0, lastSeekPos = 0\<rparr> = emptyFile"
    by (simp add: emptyFile_def)
  show ?thesis
    unfolding trailingDisk_def using NewGPFile_reopen[OF s headerOf_emptyFile, of "[1, 9, 9, 9]"]
    by (simp only: e)
qed

lemma dT9: "Decompress tagEncoder 4 3 [1, 9, 9, 9, 1, 1, 2, 3] =
    \<lparr>uncompLen = 4, decompressErr = False, outBytes = [9, 9, 9], consumed = 4\<rparr>"
  by (simp add: tagEncoder_def)

text \<open>
  A second input on which the read returns other bytes: the compressed payload is
  appended at the end of the file, while the recorded offset continues from the header.
  On a file whose header is empty and which already holds four bytes after it, the block
  written at timestamp 1000 is read back as those four bytes.
\<close>

theorem read_after_trailing_bytes:
  "NewGPFile trailingDisk = (Inr emptyFile, trailingDisk) \<and>
   fst trailingWrite = None \<and>
   fst (ReadTimedBlock tagEncoder (snd (snd trailingWrite)) (fst (snd trailingWrite)) 1000) =
     Inr [9, 9, 9]"
proof -
  define g where "g = afterWrite emptyFile 0 (of_nat (BufSize * 3) + 4) 1000 3"
  have F: "findSlot emptyFile 1000 0 = Inr (0, of_nat (BufSize * 3))"
    by (rule findSlot_emptyFile) simp
  have w: "nWrite (Compress tagEncoder [1, 2, 3]) = 4" "written (Compress tagEncoder [1, 2, 3]) = [1, 1, 2, 3]"
    by (simp_all add: tagEncoder_def)
  have n3: "length [1, 2, 3 :: byte] = 3" by simp
  have sg: "sized g" unfolding g_def using afterWrite_header(2)[OF sized_emptyFile] by blast
  have lg: "length (wBuf g) = BufSize * 3" using sg by (simp add: sized_def)
  have dr: "\<And>n xs ys. drop n ((replicate n (0::byte) @ xs) @ ys) = xs @ ys" by simp
  have W: "trailingWrite = (None, g, Some (wBuf g @ [1, 9, 9, 9, 1, 1, 2, 3]))"
    unfolding trailingWrite_def trailingDisk_def
    using WriteTimedBlock_ok[OF F header_off_not_m1 tagEncoder_ok[of "[1, 2, 3]"],
        of "replicate (BufSize * 3) 0 @ [1, 9, 9, 9]"]
    unfolding w n3 g_def[symmetric] lg dr by simp
  let ?fs = "Some (wBuf g @ [1, 9, 9, 9, 1, 1, 2, 3 :: byte])"
  have g: "timestamps g ! 0 = 1000" "blocks g ! 0 = of_nat (BufSize * 3) + 4" "lengths g ! 0 = 3"
    "curFile g = Some (BufSize * 3)" "lastSeekPos g = 0"
    unfolding g_def by (simp_all add: afterWrite_fields emptyFile_def NumElements_def BufSize_def)
  have n0: "0 < NumElements" by (simp add: NumElements_def BufSize_def)
  have ne: "\<not> emptySlot g 0" using g(1) by (simp add: emptySlot_def)
  have sp: "seekPosOf g 0 = of_nat (BufSize * 3)" by (simp add: seekPosOf_def)
  have rl: "readLenOf g 0 = 4" by (simp add: readLenOf_def g)
  have ro: "readOffset g 0 = BufSize * 3"
    unfolding readOffset_def sp g by (simp add: BufSize_def)
  have rd: "readable ?fs g 0"
    unfolding readable_def sp rl g by (simp add: BufSize_def word_sless_alt)
  have dc: "decompressCall tagEncoder ?fs g 0 = Decompress tagEncoder 4 3 [1, 9, 9, 9, 1, 1, 2, 3]"
    unfolding decompressCall_def ro rl g by (simp add: lg)
  have r: "fst (ReadBlock tagEncoder ?fs g (int 0)) = Inr [9, 9, 9]"
    unfolding ReadBlock_eq[OF n0 sg ne rd] dc dT9 rl g using pad3[of 9 9 9] by simp
  have q: "ReadTimedBlock tagEncoder ?fs g 1000 = ReadBlock tagEncoder ?fs g (int 0)"
    using n0 g(1) by (rule ReadTimedBlock_first)
  show ?thesis
    unfolding W fst_conv snd_conv q using NewGPFile_trailing r by simp
qed

text \<open>
  Claim C2. For every run of the packet-processing task: if more than 10,000 consecutive
  packet-decode failures occur, a fatal error is sent on the capture's error channel and
  the state machine moves to the Error state; a successful decode resets the counter, so
  10,000 or fewer consecutive failures never produce a fatal error. The code at a failing
  input: \<open>capturing\<close> handles a Status command, whose \<open>execute\<close> returns no next state,
  and returns nil, so that \<open>Run\<close>'s loop ends in \<open>StateCapturing\<close>; the processing task
  then meets 10,001 undecodable packets and offers its error, which is never received.
  Without the command before it, the same error takes the machine to \<open>StateError\<close>.
\<close>

theorem error_after_command_not_received:
  "fst (process (NewCapture ''eth0'' \<lparr>Promisc = False, BufferSize = 0\<rparr>) (badFeed 10001)) =
     SentError TooManyDecodeErrors \<and>
   snd (Run (Some \<lparr>PacketsReceived = 0, PacketsDropped = 0\<rparr>)
          (NewCapture ''eth0'' \<lparr>Promisc = False, BufferSize = 0\<rparr>)
          [RecvCmd captureCommandStatus, RecvErr TooManyDecodeErrors]) = Exit \<and>
   state (fst (Run (Some \<lparr>PacketsReceived = 0, PacketsDropped = 0\<rparr>)
          (NewCapture ''eth0'' \<lparr>Promisc = False, BufferSize = 0\<rparr>)
          [RecvCmd captureCommandStatus, RecvErr TooManyDecodeErrors])) = StateCapturing \<and>
   StateCapturing \<noteq> StateError \<and>
   state (fst (Run (Some \<lparr>PacketsReceived = 0, PacketsDropped = 0\<rparr>)
          (NewCapture ''eth0'' \<lparr>Promisc = False, BufferSize = 0\<rparr>)
          [RecvErr TooManyDecodeErrors])) = StateError"
proof -
  let ?c = "NewCapture ''eth0'' \<lparr>Promisc = False, BufferSize = 0\<rparr>"
  let ?src = "Some \<lparr>PacketsReceived = 0, PacketsDropped = 0\<rparr>"
  have yes: "failureRunExceeds ErrorThreshold (badFeed 10001)"
    unfolding failureRunExceeds_def lead_badFeed by (rule exI[of _ 0]) (simp add: ErrorThreshold_def)
  have p: "fst (process ?c (badFeed 10001)) = SentError TooManyDecodeErrors"
    using processLoop_fatal[of 0 "badFeed 10001" ?c] yes
    by (simp add: process_def ErrorThreshold_def)
  have nc: "\<not> closed ?c" by (simp add: NewCapture_def)
  have r1: "Run ?src ?c [RecvCmd captureCommandStatus, RecvErr TooManyDecodeErrors] =
      (setState ((setState ?c StateInitializing)\<lparr>captureHandle := ?src\<rparr>) StateCapturing, Exit)"
    by (simp add: Run_def nc RunFrom.simps initializing_def capturing_def Let_def)
  have r2: "Run ?src ?c [RecvErr TooManyDecodeErrors] =
      (setState (setState ((setState ?c StateInitializing)\<lparr>captureHandle := ?src\<rparr>) StateCapturing)
         StateError, Blocked)"
    by (simp add: Run_def nc RunFrom.simps initializing_def capturing_def inError_def Let_def)
  show ?thesis
    unfolding r1 r2 using p
    by (simp add: setState_def StateCapturing_def StateError_def)
qed

end
